theory Spec2Isabelle
  imports Complex_Main "HOL-Library.Char_ord" "HOL-Library.List_Lexorder"
begin

section \<open>Python strings\<close>

text \<open>
  A Python \<open>str\<close> is modelled as a \<open>string\<close>, one \<open>char\<close> per code point, so the
  model covers the strings whose code points are below 256. The methods of \<open>str\<close> the
  crawlers call are written out here; each is total, as the Python method is.
\<close>

definition lower_char :: "char \<Rightarrow> char" where
  \<comment> \<open>\<open>str.lower\<close> on one code point below 256: A-Z, and the Latin-1 capitals
      U+00C0-U+00DE but the multiplication sign U+00D7, move up by 32.\<close>
  "lower_char c =
     (let n = (of_char c :: nat)
      in if (65 \<le> n \<and> n \<le> 90) \<or> (192 \<le> n \<and> n \<le> 222 \<and> n \<noteq> 215)
         then char_of (n + 32) else c)"

definition lower :: "string \<Rightarrow> string" where
  "lower s = map lower_char s"

definition startswith :: "string \<Rightarrow> string \<Rightarrow> bool" where
  "startswith s p = (take (length p) s = p)"

definition endswith :: "string \<Rightarrow> string \<Rightarrow> bool" where
  "endswith s p = (length p \<le> length s \<and> drop (length s - length p) s = p)"

definition rstrip :: "char \<Rightarrow> string \<Rightarrow> string" where
  \<comment> \<open>\<open>s.rstrip(c)\<close>: every trailing \<open>c\<close> goes, not only the last one.\<close>
  "rstrip c s = rev (dropWhile (\<lambda>x. x = c) (rev s))"

definition before :: "char \<Rightarrow> string \<Rightarrow> string" where
  \<comment> \<open>\<open>s.split(c, 1)[0]\<close>, also \<open>s[:s.find(c)]\<close> when \<open>c\<close> occurs in \<open>s\<close>.\<close>
  "before c s = takeWhile (\<lambda>x. x \<noteq> c) s"

definition after :: "char \<Rightarrow> string \<Rightarrow> string" where
  \<comment> \<open>\<open>s.split(c, 1)[1]\<close>, also \<open>s[s.find(c)+1:]\<close>, when \<open>c\<close> occurs in \<open>s\<close>.\<close>
  "after c s = drop 1 (dropWhile (\<lambda>x. x \<noteq> c) s)"

fun split_on :: "char \<Rightarrow> string \<Rightarrow> string list" where
  \<comment> \<open>\<open>s.split(c)\<close>: one more piece than there are occurrences of \<open>c\<close>.\<close>
  "split_on c [] = ['''']"
| "split_on c (x # xs) =
     (case split_on c xs of
        [] \<Rightarrow> [x # Nil]
      | p # ps \<Rightarrow> if x = c then [] # p # ps else (x # p) # ps)"

fun join :: "string \<Rightarrow> string list \<Rightarrow> string" where
  \<comment> \<open>\<open>sep.join(pieces)\<close>\<close>
  "join sep [] = []"
| "join sep [p] = p"
| "join sep (p # q # ps) = p @ sep @ join sep (q # ps)"

fun contains :: "string \<Rightarrow> string \<Rightarrow> bool" where
  \<comment> \<open>\<open>p in s\<close> for two strings\<close>
  "contains [] p = (p = [])"
| "contains (x # xs) p = (startswith (x # xs) p \<or> contains xs p)"

section \<open>The standard library's \<open>urllib.parse\<close>\<close>

text \<open>
  \<open>normalize_url\<close> is built from \<open>urljoin\<close>, \<open>urlparse\<close>, \<open>parse_qsl\<close> and
  \<open>urlunparse\<close>. They are modelled after CPython 3.11 (\<open>Lib/urllib/parse.py\<close>), line by
  line. Two places of the library are not followed to the end, and no theorem below
  depends on them: a host in square brackets is accepted when its brackets pair up (the
  library also asks the \<open>ipaddress\<close> module whether it is an IPv6 or IPvFuture literal),
  and a percent escape of a byte from 0x80 on is kept as it is written (the library
  decodes runs of such bytes as UTF-8).
\<close>

datatype py_error = ValueError | TypeError | RecursionError | RuntimeError

record url_parts =
  scheme :: string
  netloc :: string
  path :: string
  params :: string
  query :: string
  fragment :: string

definition uses_relative :: "string list" where
  "uses_relative = ['''', ''ftp'', ''http'', ''gopher'', ''nntp'', ''imap'',
     ''wais'', ''file'', ''https'', ''shttp'', ''mms'', ''prospero'', ''rtsp'', ''rtsps'',
     ''rtspu'', ''sftp'', ''svn'', ''svn+ssh'', ''ws'', ''wss'']"

definition uses_netloc :: "string list" where
  "uses_netloc = ['''', ''ftp'', ''http'', ''gopher'', ''nntp'', ''telnet'',
     ''imap'', ''wais'', ''file'', ''mms'', ''https'', ''shttp'', ''snews'', ''prospero'',
     ''rtsp'', ''rtsps'', ''rtspu'', ''rsync'', ''svn'', ''svn+ssh'', ''sftp'', ''nfs'',
     ''git'', ''git+ssh'', ''ws'', ''wss'']"

definition uses_params :: "string list" where
  "uses_params = ['''', ''ftp'', ''hdl'', ''prospero'', ''http'', ''imap'',
     ''https'', ''shttp'', ''rtsp'', ''rtsps'', ''rtspu'', ''sip'', ''sips'', ''mms'',
     ''sftp'', ''tel'']"

definition scheme_char :: "char \<Rightarrow> bool" where
  "scheme_char c = (c \<in> set (''abcdefghijklmnopqrstuvwxyz'' @
     ''ABCDEFGHIJKLMNOPQRSTUVWXYZ'' @ ''0123456789'' @ ''+-.''))"

definition ascii_alpha :: "char \<Rightarrow> bool" where
  \<comment> \<open>\<open>c.isascii() and c.isalpha()\<close>\<close>
  "ascii_alpha c = (c \<in> set (''abcdefghijklmnopqrstuvwxyz'' @
     ''ABCDEFGHIJKLMNOPQRSTUVWXYZ''))"

definition c0_or_space :: "char \<Rightarrow> bool" where
  \<comment> \<open>\<open>_WHATWG_C0_CONTROL_OR_SPACE\<close>: U+0000 to U+0020\<close>
  "c0_or_space c = ((of_char c :: nat) \<le> 32)"

definition unsafe_byte :: "char \<Rightarrow> bool" where
  \<comment> \<open>\<open>_UNSAFE_URL_BYTES_TO_REMOVE\<close>: tab, carriage return, line feed\<close>
  "unsafe_byte c = (c = CHR 0x09 \<or> c = CHR 0x0D \<or> c = CHR 0x0A)"

definition netloc_delim :: "char \<Rightarrow> bool" where
  "netloc_delim c = (c = CHR ''/'' \<or> c = CHR ''?'' \<or> c = CHR ''#'')"

definition splitnetloc :: "string \<Rightarrow> string \<times> string" where
  \<comment> \<open>\<open>_splitnetloc(url, 2)\<close>: the netloc runs from index 2 to the first of \<open>/ ? #\<close>.\<close>
  "splitnetloc url =
     (let r = drop 2 url
      in (takeWhile (\<lambda>c. \<not> netloc_delim c) r, dropWhile (\<lambda>c. \<not> netloc_delim c) r))"

definition brackets_paired :: "string \<Rightarrow> bool" where
  "brackets_paired n = ((CHR ''['' \<in> set n) = (CHR '']'' \<in> set n))"

definition urlsplit :: "string \<Rightarrow> string \<Rightarrow> py_error + url_parts" where
  \<comment> \<open>\<open>urlsplit(url, scheme)\<close>; the result's \<open>params\<close> stays empty.\<close>
  "urlsplit url0 dflt =
     (let url1 = filter (\<lambda>c. \<not> unsafe_byte c) (dropWhile c0_or_space url0);
          dflt1 = filter (\<lambda>c. \<not> unsafe_byte c)
                    (rev (dropWhile c0_or_space (rev (dropWhile c0_or_space dflt))));
          pre = before CHR '':'' url1;
          found = (CHR '':'' \<in> set url1 \<and> pre \<noteq> [] \<and> ascii_alpha (hd url1)
                   \<and> list_all scheme_char pre);
          sch = (if found then lower pre else dflt1);
          url2 = (if found then after CHR '':'' url1 else url1);
          nl = (if take 2 url2 = ''//'' then fst (splitnetloc url2) else []);
          url3 = (if take 2 url2 = ''//'' then snd (splitnetloc url2) else url2)
      in if brackets_paired nl then
           (let frag = (if CHR ''#'' \<in> set url3 then after CHR ''#'' url3 else []);
                url4 = before CHR ''#'' url3;
                qry = (if CHR ''?'' \<in> set url4 then after CHR ''?'' url4 else []);
                url5 = before CHR ''?'' url4
            in Inr \<lparr>scheme = sch, netloc = nl, path = url5, params = [],
                    query = qry, fragment = frag\<rparr>)
         else Inl ValueError)"

definition splitparams :: "string \<Rightarrow> string \<times> string" where
  \<comment> \<open>\<open>_splitparams(url)\<close>, which \<open>urlparse\<close> calls when \<open>;\<close> occurs in \<open>url\<close>:
      the parameters start at the first \<open>;\<close> of the last path segment.\<close>
  "splitparams url =
     (if CHR ''/'' \<in> set url then
        (let seg = rev (takeWhile (\<lambda>c. c \<noteq> CHR ''/'') (rev url));
             dir = take (length url - length seg) url
         in if CHR '';'' \<in> set seg
            then (dir @ before CHR '';'' seg, after CHR '';'' seg)
            else (url, []))
      else (before CHR '';'' url, after CHR '';'' url))"

definition urlparse_with :: "string \<Rightarrow> string \<Rightarrow> py_error + url_parts" where
  \<comment> \<open>\<open>urlparse(url, scheme)\<close>\<close>
  "urlparse_with url dflt =
     (case urlsplit url dflt of
        Inl e \<Rightarrow> Inl e
      | Inr r \<Rightarrow>
          if scheme r \<in> set uses_params \<and> CHR '';'' \<in> set (path r)
          then Inr (r\<lparr>path := fst (splitparams (path r)),
                      params := snd (splitparams (path r))\<rparr>)
          else Inr r)"

definition urlparse :: "string \<Rightarrow> py_error + url_parts" where
  "urlparse url = urlparse_with url []"

definition urlunsplit :: "url_parts \<Rightarrow> string" where
  \<comment> \<open>\<open>urlunsplit((scheme, netloc, url, query, fragment))\<close>, \<open>url\<close> being the path\<close>
  "urlunsplit r =
     (let url = path r;
          url1 = (if netloc r \<noteq> [] \<or> (scheme r \<noteq> [] \<and> scheme r \<in> set uses_netloc)
                     \<or> take 2 url = ''//''
                  then ''//'' @ netloc r @
                       (if url \<noteq> [] \<and> take 1 url \<noteq> ''/'' then ''/'' @ url else url)
                  else url);
          url2 = (if scheme r \<noteq> [] then scheme r @ '':'' @ url1 else url1);
          url3 = (if query r \<noteq> [] then url2 @ ''?'' @ query r else url2)
      in if fragment r \<noteq> [] then url3 @ ''#'' @ fragment r else url3)"

definition urlunparse :: "url_parts \<Rightarrow> string" where
  "urlunparse r =
     urlunsplit (if params r \<noteq> [] then r\<lparr>path := path r @ '';'' @ params r\<rparr> else r)"

definition hexdig :: "char \<Rightarrow> bool" where
  "hexdig c = (c \<in> set ''0123456789ABCDEFabcdef'')"

definition hexval :: "char \<Rightarrow> nat" where
  "hexval c =
     (let n = (of_char c :: nat)
      in if 48 \<le> n \<and> n \<le> 57 then n - 48
         else if 65 \<le> n \<and> n \<le> 70 then n - 55
         else n - 87)"

fun unquote :: "string \<Rightarrow> string" where
  \<comment> \<open>\<open>unquote(s)\<close>: \<open>%xx\<close> with two hex digits becomes the byte it names; any other
      \<open>%\<close> stays. Escapes of bytes from 0x80 on are kept (see above).\<close>
  "unquote (c # h1 # h2 # rest) =
     (if c = CHR ''%'' \<and> hexdig h1 \<and> hexdig h2 \<and> 16 * hexval h1 + hexval h2 < 128
      then char_of (16 * hexval h1 + hexval h2) # unquote rest
      else c # unquote (h1 # h2 # rest))"
| "unquote s = s"

definition unquote_plus :: "string \<Rightarrow> string" where
  \<comment> \<open>\<open>unquote_plus(s)\<close>: \<open>unquote(s.replace('+', ' '))\<close>\<close>
  "unquote_plus s = unquote (map (\<lambda>c. if c = CHR ''+'' then CHR '' '' else c) s)"

definition parse_qsl :: "string \<Rightarrow> (string \<times> string) list" where
  \<comment> \<open>\<open>parse_qsl(qs, keep_blank_values=True)\<close>: the pieces between \<open>&\<close>, the empty
      ones dropped, each cut at its first \<open>=\<close> and both halves unquoted.\<close>
  "parse_qsl qs =
     (if qs = [] then []
      else map (\<lambda>nv. (unquote_plus (before CHR ''='' nv), unquote_plus (after CHR ''='' nv)))
             (filter (\<lambda>nv. nv \<noteq> []) (split_on CHR ''&'' qs)))"

definition squeeze_middle :: "string list \<Rightarrow> string list" where
  \<comment> \<open>\<open>segments[1:-1] = filter(None, segments[1:-1])\<close>\<close>
  "squeeze_middle segs =
     (case segs of
        [] \<Rightarrow> []
      | [x] \<Rightarrow> [x]
      | x # rest \<Rightarrow> x # filter (\<lambda>s. s \<noteq> []) (butlast rest) @ [last rest])"

fun resolve_dots :: "string list \<Rightarrow> string list \<Rightarrow> string list" where
  \<comment> \<open>the loop of \<open>urljoin\<close> over \<open>segments\<close>; the second argument is
      \<open>resolved_path\<close> so far\<close>
  "resolve_dots [] acc = acc"
| "resolve_dots (seg # segs) acc =
     (if seg = ''..'' then resolve_dots segs (butlast acc)
      else if seg = ''.'' then resolve_dots segs acc
      else resolve_dots segs (acc @ [seg]))"

definition urljoin :: "string \<Rightarrow> string \<Rightarrow> py_error + string" where
  \<comment> \<open>\<open>urljoin(base, url)\<close>\<close>
  "urljoin base url =
     (if base = [] then Inr url
      else if url = [] then Inr base
      else case urlparse base of
        Inl e \<Rightarrow> Inl e
      | Inr b \<Rightarrow>
         (case urlparse_with url (scheme b) of
            Inl e \<Rightarrow> Inl e
          | Inr r \<Rightarrow>
             if scheme r \<noteq> scheme b \<or> scheme r \<notin> set uses_relative then Inr url
             else if scheme r \<in> set uses_netloc \<and> netloc r \<noteq> [] then Inr (urlunparse r)
             else
               (let nl = (if scheme r \<in> set uses_netloc then netloc b else netloc r)
                in if path r = [] \<and> params r = [] then
                     Inr (urlunparse (r\<lparr>netloc := nl, path := path b, params := params b,
                            query := (if query r = [] then query b else query r)\<rparr>))
                   else
                     (let parts = split_on CHR ''/'' (path b);
                          base_parts = (if last parts \<noteq> [] then butlast parts else parts);
                          segments =
                            (if take 1 (path r) = ''/'' then split_on CHR ''/'' (path r)
                             else squeeze_middle (base_parts @ split_on CHR ''/'' (path r)));
                          resolved = resolve_dots segments [];
                          resolved_path =
                            (if last segments = ''.'' \<or> last segments = ''..''
                             then resolved @ [''''] else resolved);
                          joined = join ''/'' resolved_path
                      in Inr (urlunparse (r\<lparr>netloc := nl,
                                path := (if joined = [] then ''/'' else joined)\<rparr>))))))"

section \<open>\<open>normalize_url\<close>\<close>

definition tracking_key :: "string \<Rightarrow> bool" where
  \<comment> \<open>the test of the list comprehension that builds \<open>qs_filtered\<close>\<close>
  "tracking_key k =
     (startswith (lower k) ''utm_'' \<or> lower k \<in> set [''fbclid'', ''gclid'', ''icid''])"

definition norm_path :: "string \<Rightarrow> string" where
  \<comment> \<open>\<open>path = parsed.path or '/'\<close>, then
      \<open>if path != '/' and path.endswith('/'): path = path.rstrip('/')\<close>\<close>
  "norm_path p =
     (let path = (if p = [] then ''/'' else p)
      in if path \<noteq> ''/'' \<and> endswith path ''/'' then rstrip CHR ''/'' path else path)"

definition norm_query :: "string \<Rightarrow> string" where
  \<comment> \<open>\<open>qs_items\<close>, \<open>qs_filtered\<close> and \<open>query\<close>\<close>
  "norm_query q =
     (let qs_items = parse_qsl q;
          qs_filtered = filter (\<lambda>(k, v). \<not> tracking_key k) qs_items
      in if qs_filtered = [] then []
         else join ''&'' (map (\<lambda>(k, v). k @ ''='' @ v) qs_filtered))"

definition normalized :: "url_parts \<Rightarrow> string" where
  \<comment> \<open>the body both copies share, from \<open>scheme = ...\<close> to the call of
      \<open>urlunparse\<close>\<close>
  "normalized parsed =
     urlunparse \<lparr>scheme = lower (if scheme parsed = [] then ''http'' else scheme parsed),
                 netloc = lower (netloc parsed),
                 path = norm_path (path parsed),
                 params = [],
                 query = norm_query (query parsed),
                 fragment = []\<rparr>"

definition resolve :: "string \<Rightarrow> string option \<Rightarrow> py_error + string" where
  \<comment> \<open>\<open>if base: u = urljoin(base, u)\<close>\<close>
  "resolve u base =
     (case base of
        None \<Rightarrow> Inr u
      | Some b \<Rightarrow> if b = [] then Inr u else urljoin b u)"

definition normalize_url :: "string \<Rightarrow> string option \<Rightarrow> string option" where
  \<comment> \<open>python_web_crawler_products.py: every exception is caught and gives \<open>None\<close>,
      and so does an empty netloc.\<close>
  "normalize_url u base =
     (if u = [] then None
      else case resolve u base of
        Inl e \<Rightarrow> None
      | Inr u1 \<Rightarrow>
         (case urlparse (before CHR ''#'' u1) of
            Inl e \<Rightarrow> None
          | Inr parsed \<Rightarrow>
             if lower (netloc parsed) = [] then None else Some (normalized parsed)))"

definition ai_normalize_url :: "string \<Rightarrow> string option \<Rightarrow> py_error + string option" where
  \<comment> \<open>ai_crawler.py: no \<open>try\<close>, so an exception of the library leaves the function
      (\<open>Inl\<close>), and no test of the netloc.\<close>
  "ai_normalize_url u base =
     (if u = [] then Inr None
      else case resolve u base of
        Inl e \<Rightarrow> Inl e
      | Inr u1 \<Rightarrow>
         (case urlparse (before CHR ''#'' u1) of
            Inl e \<Rightarrow> Inl e
          | Inr parsed \<Rightarrow> Inr (Some (normalized parsed))))"

section \<open>Sitemap resolution\<close>

text \<open>
  A sitemap document, as \<open>xml.etree.ElementTree\<close> hands it over: an element has a tag
  (\<open>{namespace}name\<close>, or a bare name), a text (\<open>None\<close> when there is none) and its
  children in document order. The site is a function from a sitemap's URL to the parsed
  document it serves; \<open>None\<close> stands for every failure the two functions catch in the
  same way (the request fails, the status is not 2xx, the XML does not parse).
\<close>

datatype xml = Element (el_tag: string) (el_text: "string option") (el_children: "xml list")

type_synonym sitemap_web = "string \<Rightarrow> xml option"

fun descendants :: "xml \<Rightarrow> xml list" where
  \<comment> \<open>what \<open>.//\<close> ranges over: every element below the root, in document order\<close>
  "descendants (Element t x cs) = concat (map (\<lambda>c. c # descendants c) cs)"

definition is_space :: "char \<Rightarrow> bool" where
  \<comment> \<open>\<open>str.isspace\<close> on a code point below 256\<close>
  "is_space c =
     (let n = (of_char c :: nat)
      in (9 \<le> n \<and> n \<le> 13) \<or> (28 \<le> n \<and> n \<le> 32) \<or> n = 133 \<or> n = 160)"

definition strip :: "string \<Rightarrow> string" where
  "strip s = rev (dropWhile is_space (rev (dropWhile is_space s)))"

definition any_ns :: "string \<Rightarrow> xml \<Rightarrow> bool" where
  \<comment> \<open>the tag test \<open>{*}name\<close>: the name in any namespace, or in none\<close>
  "any_ns name e = (el_tag e = name \<or> endswith (el_tag e) (CHR ''}'' # name))"

definition sitemaps_ns :: string where
  "sitemaps_ns = ''http://www.sitemaps.org/schemas/sitemap/0.9''"

definition in_sm :: "string \<Rightarrow> xml \<Rightarrow> bool" where
  \<comment> \<open>the tag test \<open>sm:name\<close> under \<open>ns = {"sm": ...}\<close>\<close>
  "in_sm name e = (el_tag e = CHR ''{'' # sitemaps_ns @ CHR ''}'' # name)"

definition stripped_texts :: "xml list \<Rightarrow> string list" where
  \<comment> \<open>\<open>loc.text.strip()\<close> of every \<open>loc\<close> whose text is neither \<open>None\<close> nor empty\<close>
  "stripped_texts locs =
     map strip (filter (\<lambda>t. t \<noteq> []) (List.map_filter el_text locs))"

definition first_locs :: "string \<Rightarrow> xml \<Rightarrow> string list" where
  \<comment> \<open>the loop \<open>for x in root.findall('.//{*}name'): loc = x.find('{*}loc'); ...\<close> of
      \<open>fetch_sitemap_urls\<close>: the first \<open>loc\<close> child of each element found\<close>
  "first_locs name doc =
     stripped_texts
       (List.map_filter (\<lambda>x. find (any_ns ''loc'') (el_children x))
          (filter (any_ns name) (descendants doc)))"

definition all_locs :: "xml \<Rightarrow> string list" where
  \<comment> \<open>\<open>root.findall('.//{*}loc')\<close>\<close>
  "all_locs doc = stripped_texts (filter (any_ns ''loc'') (descendants doc))"

definition sm_locs :: "string \<Rightarrow> xml \<Rightarrow> string list" where
  \<comment> \<open>\<open>root.findall('.//sm:name/sm:loc', ns)\<close> of \<open>parse_sitemap\<close>: every \<open>loc\<close>
      child of every element found\<close>
  "sm_locs name doc =
     stripped_texts
       (concat (map (\<lambda>x. filter (in_sm ''loc'') (el_children x))
          (filter (in_sm name) (descendants doc))))"

text \<open>
  Both resolvers call themselves inside a \<open>for\<close> loop. The loop is \<open>extend_each\<close>: it
  takes the recursive call as an argument and threads the state (the requests made so
  far, and for \<open>parse_sitemap\<close> the set \<open>seen\<close>) through the calls. The first argument
  of the resolvers is the number of nested calls still allowed.

  For \<open>fetch_sitemap_urls\<close> the bound is the interpreter's: where no further call is
  allowed, \<open>requests.get\<close> raises \<open>RecursionError\<close> inside the function's first \<open>try\<close>,
  \<open>except Exception\<close> catches it, and the call returns the empty list without a request.
  For \<open>parse_sitemap\<close> the bound only makes the definition total: at 0 the result is
  \<open>None\<close>, the call did not return, and \<open>parse_sitemap_returns\<close> shows that a bound above
  the number of sitemaps not yet seen is never reached.
\<close>

fun extend_each ::
  "(string \<Rightarrow> 's \<Rightarrow> string list option \<times> 's) \<Rightarrow> string list \<Rightarrow> string list \<Rightarrow> 's
     \<Rightarrow> string list option \<times> 's" where
  "extend_each call [] urls st = (Some urls, st)"
| "extend_each call (loc # locs) urls st =
     (case call loc st of
        (None, st') \<Rightarrow> (None, st')
      | (Some found, st') \<Rightarrow> extend_each call locs (urls @ found) st')"

primrec fetch_sitemap_urls ::
  "nat \<Rightarrow> sitemap_web \<Rightarrow> string \<Rightarrow> string list \<Rightarrow> string list option \<times> string list" where
  \<comment> \<open>python_web_crawler_products.py; the state is the list of URLs requested so far\<close>
  "fetch_sitemap_urls 0 web sitemap_url requested = (Some [], requested)"
| "fetch_sitemap_urls (Suc depth) web sitemap_url requested =
     (let requested1 = requested @ [sitemap_url]
      in case web sitemap_url of
           None \<Rightarrow> (Some [], requested1)
         | Some doc \<Rightarrow>
            (case (if endswith (lower (el_tag doc)) ''sitemapindex''
                   then extend_each (fetch_sitemap_urls depth web)
                          (first_locs ''sitemap'' doc) [] requested1
                   else (Some (first_locs ''url'' doc), requested1)) of
               (None, requested2) \<Rightarrow> (None, requested2)
             | (Some urls, requested2) \<Rightarrow>
                 (Some (if urls = [] then all_locs doc else urls), requested2)))"

primrec parse_sitemap ::
  "nat \<Rightarrow> sitemap_web \<Rightarrow> string \<Rightarrow> string set \<times> string list
     \<Rightarrow> string list option \<times> (string set \<times> string list)" where
  \<comment> \<open>notebook/robots_crawler.py; the state is \<open>seen\<close> and the list of URLs requested\<close>
  "parse_sitemap 0 web sitemap_url st = (None, st)"
| "parse_sitemap (Suc depth) web sitemap_url st =
     (if sitemap_url \<in> fst st then (Some [], st)
      else
        (let st1 = (insert sitemap_url (fst st), snd st @ [sitemap_url])
         in case web sitemap_url of
              None \<Rightarrow> (Some [], st1)
            | Some doc \<Rightarrow>
                extend_each (parse_sitemap depth web) (sm_locs ''sitemap'' doc)
                  (sm_locs ''url'' doc) st1))"

section \<open>The keyword crawler's politeness delay\<close>

text \<open>
  keyword_crawler.py keeps the delay as a Python float. It is modelled as a real number:
  the claim compares a delay, the larger of two delays and a quotient by the number of
  workers, and none of the comparisons made here turns on rounding.
\<close>

record keyword_crawler =
  kc_delay :: real
  kc_concurrency :: int
  kc_max_pages :: int

definition keyword_crawler_init :: "int \<Rightarrow> real \<Rightarrow> int \<Rightarrow> real option \<Rightarrow> keyword_crawler" where
  \<comment> \<open>\<open>KeywordCrawler.__init__\<close>; the last argument is \<open>self.robots.crawl_delay\<close>\<close>
  "keyword_crawler_init max_pages delay concurrency crawl_delay =
     \<lparr>kc_delay = (case crawl_delay of None \<Rightarrow> delay | Some cd \<Rightarrow> max delay cd),
      kc_concurrency = max 1 concurrency,
      kc_max_pages = max_pages\<rparr>"

definition submission_pause :: "keyword_crawler \<Rightarrow> real" where
  \<comment> \<open>the argument of \<open>time.sleep\<close> in \<open>run\<close>:
      \<open>self.delay / max(1, self.concurrency)\<close>\<close>
  "submission_pause k = kc_delay k / real_of_int (max 1 (kc_concurrency k))"

datatype kc_event = Submit string | Sleep real

record kc_state =
  to_visit :: "string list"
  kc_visited :: "string set"
  kc_trace :: "kc_event list"

definition kc_append :: "keyword_crawler \<Rightarrow> string \<Rightarrow> kc_state \<Rightarrow> kc_state" where
  \<comment> \<open>the guarded \<open>self.to_visit.append(link)\<close> of \<open>process_page\<close>\<close>
  "kc_append k link s =
     (if link \<notin> kc_visited s \<and> link \<notin> set (to_visit s)
         \<and> int (card (kc_visited s)) + int (length (to_visit s)) < kc_max_pages k
      then s\<lparr>to_visit := to_visit s @ [link]\<rparr> else s)"

fun kc_run ::
  "keyword_crawler \<Rightarrow> string \<Rightarrow> string \<Rightarrow> (string \<Rightarrow> bool) \<Rightarrow> string list list \<Rightarrow> kc_state
     \<Rightarrow> py_error + kc_state" where
  \<comment> \<open>the \<open>while\<close> loop of \<open>KeywordCrawler.run\<close>, with \<open>self.scheme\<close>,
      \<open>self.base_domain\<close> and \<open>self.robots.can_fetch\<close>. The pool's threads append the
      links they find while the loop sleeps: the list holds, for each turn of the loop,
      the links that arrive during its sleep, and the loop is followed for as many turns
      as the list is long.\<close>
  "kc_run k sch base_domain can_fetch [] s = Inr s"
| "kc_run k sch base_domain can_fetch (arrived # later) s =
     (case to_visit s of
        [] \<Rightarrow> Inr s
      | url0 # rest \<Rightarrow>
          if \<not> int (card (kc_visited s)) < kc_max_pages k then Inr s
          else
            (case urlparse url0 of
               Inl e \<Rightarrow> Inl e
             | Inr parsed \<Rightarrow>
                (let url = rstrip CHR ''/''
                             (if scheme parsed = [] then sch @ ''://'' @ base_domain @ url0
                              else url0);
                     s1 = s\<lparr>to_visit := rest\<rparr>
                 in if \<not> can_fetch url then kc_run k sch base_domain can_fetch later s1
                    else if url \<in> kc_visited s1
                    then kc_run k sch base_domain can_fetch later s1
                    else
                      (let s2 = s1\<lparr>kc_visited := insert url (kc_visited s1),
                                   kc_trace := kc_trace s1 @ [Submit url, Sleep (submission_pause k)]\<rparr>
                       in kc_run k sch base_domain can_fetch later
                            (fold (kc_append k) arrived s2)))))"

section \<open>The render fetch: \<open>fetch_with_playwright\<close>\<close>

text \<open>
  The browser is the environment: \<open>context.new_page()\<close> and every awaited method of
  \<open>page\<close> (and of the element handles it returns) either returns a value or raises. The
  replies of the browser are given as a list, consumed one per call in the order of the
  calls; the calls made are recorded. The list is a finite part of what the browser
  answers: when it runs out the function is still running, with its last call not
  answered, and the outcome is \<open>Waiting\<close>. That is also the outcome, for every list of
  replies, of a run that never ends (the scroll loop on a page that grows as fast as it
  is scrolled).

  An exception is one that \<open>except Exception\<close> catches (\<open>PlaywrightTimeoutError\<close>, or
  any other) or one that it does not catch: \<open>asyncio.CancelledError\<close> and
  \<open>KeyboardInterrupt\<close> derive from \<open>BaseException\<close> only, and either can be raised at an
  \<open>await\<close>. \<open>asyncio.sleep\<close> calls no method of the page and raises nothing that
  \<open>except Exception\<close> catches; it is left out, and a cancellation that arrives during a
  sleep is seen here at the next call.
\<close>

datatype pw_exc = PlaywrightTimeoutError | OtherException | CancelledError


datatype pw_value = VNone | VInt int | VStr string | VStrs "string list" | VHandle | VHandles nat

datatype reply = Returns pw_value | Raises pw_exc

datatype pw_call =
    NewPage | SetExtraHttpHeaders | Goto string | Evaluate string | QuerySelector string | Hover
  | QuerySelectorAll | Click | Content | Close

datatype 'a outcome = Done 'a | Raised pw_exc | Waiting

record browser =
  replies :: "reply list"
  calls :: "pw_call list"

definition call :: "pw_call \<Rightarrow> browser \<Rightarrow> pw_value outcome \<times> browser" where
  \<comment> \<open>\<open>await context.new_page()\<close>, \<open>await page.method(...)\<close>\<close>
  "call c b =
     (case replies b of
        [] \<Rightarrow> (Waiting, b\<lparr>calls := calls b @ [c]\<rparr>)
      | Returns v # rs \<Rightarrow> (Done v, \<lparr>replies = rs, calls = calls b @ [c]\<rparr>)
      | Raises e # rs \<Rightarrow> (Raised e, \<lparr>replies = rs, calls = calls b @ [c]\<rparr>))"



























section \<open>The crawl: frontier, visited set and workers\<close>

text \<open>
  \<open>robust_crawl\<close> (python_web_crawler_products.py) and \<open>crawl\<close> (ai_crawler.py) share
  their worker line by line; the places where the two files differ are marked by the
  crawler's \<open>variant\<close>. A fetched document is what BeautifulSoup finds in it.
\<close>

datatype variant = Products | AI

record page =
  html_len :: nat
    \<comment> \<open>\<open>len(html)\<close>\<close>
  anchors :: "string list"
    \<comment> \<open>\<open>a['href']\<close> of every \<open>a\<close> with an \<open>href\<close>\<close>
  data_attrs :: "string list"
    \<comment> \<open>the values of \<open>data-href\<close>, \<open>data-url\<close>, \<open>data-link\<close>, \<open>data-target\<close>,
        \<open>data-path\<close>, \<open>data-route\<close>\<close>
  onclick_targets :: "string list"
    \<comment> \<open>\<open>m.group(1)\<close> of every \<open>onclick\<close> one of the three patterns matches\<close>
  rel_links :: "string list"
    \<comment> \<open>\<open>tag['href']\<close> of every \<open>link\<close> whose \<open>rel\<close> has canonical, prev, next or
        alternate\<close>
  h1_text :: "string option"
    \<comment> \<open>\<open>soup.find('h1').get_text(strip=True)\<close>, \<open>None\<close> without an \<open>h1\<close>\<close>
  title_string :: "string option"
    \<comment> \<open>\<open>soup.title.string\<close>, \<open>None\<close> without either\<close>
  body_text :: string
    \<comment> \<open>\<open>soup.get_text(' ')\<close>\<close>

definition no_html :: "page option \<Rightarrow> bool" where
  \<comment> \<open>\<open>not html\<close>: \<open>None\<close>, or the empty string\<close>
  "no_html html = (case html of None \<Rightarrow> True | Some p \<Rightarrow> html_len p = 0)"

definition extension_skip :: "variant \<Rightarrow> string list" where
  \<comment> \<open>\<open>EXTENSION_SKIP\<close>\<close>
  "extension_skip v =
     [''.jpg'', ''.jpeg'', ''.png'', ''.gif'', ''.svg'', ''.pdf'', ''.zip'', ''.rar'', ''.exe'',
      ''.tar'', ''.gz'']
     @ (case v of Products \<Rightarrow> [''.woff'', ''.woff2''] | AI \<Rightarrow> [])"

definition skipped_extension :: "variant \<Rightarrow> string \<Rightarrow> bool" where
  \<comment> \<open>\<open>any(l.lower().endswith(ext) for ext in EXTENSION_SKIP)\<close>\<close>
  "skipped_extension v l = list_ex (endswith (lower l)) (extension_skip v)"

definition normalize :: "variant \<Rightarrow> string \<Rightarrow> string option \<Rightarrow> py_error + string option" where
  \<comment> \<open>the file's own \<open>normalize_url\<close>\<close>
  "normalize v u base =
     (case v of Products \<Rightarrow> Inr (normalize_url u base) | AI \<Rightarrow> ai_normalize_url u base)"

definition raw_links :: "page \<Rightarrow> string list" where
  \<comment> \<open>the strings \<open>extract_links_from_html\<close> passes to \<open>normalize_url\<close>, in the
      order of its four loops; an anchor's \<open>href\<close> is stripped first, and an empty
      string is passed in no loop but the last two\<close>
  "raw_links p =
     filter (\<lambda>h. h \<noteq> []) (map strip (anchors p))
     @ filter (\<lambda>h. h \<noteq> []) (data_attrs p)
     @ onclick_targets p
     @ rel_links p"

fun normalize_each ::
  "variant \<Rightarrow> string \<Rightarrow> string list \<Rightarrow> string set \<Rightarrow> py_error + string set" where
  \<comment> \<open>\<open>n = normalize_url(x, base=base_url); if n: found.add(n)\<close>, for each string\<close>
  "normalize_each v base_url [] found = Inr found"
| "normalize_each v base_url (x # xs) found =
     (case normalize v x (Some base_url) of
        Inl e \<Rightarrow> Inl e
      | Inr None \<Rightarrow> normalize_each v base_url xs found
      | Inr (Some n) \<Rightarrow>
          normalize_each v base_url xs (if n = [] then found else insert n found))"

definition kept_link :: "variant \<Rightarrow> string \<Rightarrow> bool" where
  \<comment> \<open>the last loop of \<open>extract_links_from_html\<close>\<close>
  "kept_link v u =
     (u \<noteq> [] \<and> \<not> startswith (lower u) ''mailto:'' \<and> \<not> startswith (lower u) ''tel:''
      \<and> \<not> skipped_extension v u)"

definition extract_links_from_html :: "variant \<Rightarrow> string \<Rightarrow> page \<Rightarrow> py_error + string set" where
  "extract_links_from_html v base_url html =
     (case normalize_each v base_url (raw_links html) {} of
        Inl e \<Rightarrow> Inl e
      | Inr found \<Rightarrow> Inr (Set.filter (kept_link v) found))"

fun merge_candidates :: "variant \<Rightarrow> string \<Rightarrow> string list \<Rightarrow> string set \<Rightarrow> string set" where
  \<comment> \<open>\<open>for raw in (raw_js_candidates or []): try: ... links.add(n) except: pass\<close>\<close>
  "merge_candidates v url [] links = links"
| "merge_candidates v url (raw # raws) links =
     (case normalize v raw (Some url) of
        Inr (Some n) \<Rightarrow> merge_candidates v url raws (if n = [] then links else insert n links)
      | _ \<Rightarrow> merge_candidates v url raws links)"

definition simple_classify :: "variant \<Rightarrow> string \<Rightarrow> string" where
  "simple_classify v text0 =
     (let t = lower text0
      in if contains t ''course'' \<or> contains t ''enroll'' \<or> contains t ''training''
         then ''course''
         else if contains t ''certif'' \<or> contains t ''certificate'' \<or> contains t ''exam''
         then ''certification''
         else if contains t ''product'' \<or> contains t ''buy'' \<or> contains t ''price''
         then ''product''
         else if contains t ''press'' \<or> contains t ''news'' \<or> contains t ''announcement''
         then ''announcement''
         else if contains t ''blog'' \<or> contains t ''case study'' \<or> contains t ''case-study''
         then ''blog''
         else if v = Products
                 \<and> (contains t ''career'' \<or> contains t ''job'' \<or> contains t ''join us'')
         then ''careers''
         else ''other'')"

definition page_title :: "page \<Rightarrow> string option" where
  \<comment> \<open>\<open>title\<close>: the text of the first \<open>h1\<close> when it is not empty, else the stripped
      string of \<open>title\<close> when that is not empty\<close>
  "page_title p =
     (case h1_text p of
        Some h \<Rightarrow> if h \<noteq> [] then Some h
                  else (case title_string p of
                          None \<Rightarrow> None
                        | Some t \<Rightarrow> if t \<noteq> [] then Some (strip t) else None)
      | None \<Rightarrow> (case title_string p of
                   None \<Rightarrow> None
                 | Some t \<Rightarrow> if t \<noteq> [] then Some (strip t) else None))"

record page_result =
  r_url :: string
  r_title :: "string option"
  r_classification :: string
  r_rendered_with_playwright :: bool
  r_links_sample :: "string list"

definition make_result :: "variant \<Rightarrow> string \<Rightarrow> page \<Rightarrow> bool \<Rightarrow> string set \<Rightarrow> page_result" where
  \<comment> \<open>the dictionary appended to \<open>results\<close>\<close>
  "make_result v url html used_playwright links =
     (let title = page_title html;
          sample_text = (case title of None \<Rightarrow> [] | Some t \<Rightarrow> t) @ '' ''
                        @ take (case v of Products \<Rightarrow> 1200 | AI \<Rightarrow> 800) (body_text html)
      in \<lparr>r_url = url, r_title = title,
          r_classification = simple_classify v sample_text,
          r_rendered_with_playwright = used_playwright,
          r_links_sample = take (case v of Products \<Rightarrow> 60 | AI \<Rightarrow> 40)
                             (sorted_list_of_set links)\<rparr>)"

text \<open>
  A worker is a coroutine: between two \<open>await\<close>s it runs alone. Its state is the
  \<open>await\<close> it stands at, with the local variables that are live there. The shared
  variables of the enclosing function are one record; two lists record the calls of
  the plain fetch and of the render fetch the workers make, in the order they are made.
\<close>

datatype wstate =
    AtLoop
      \<comment> \<open>not yet started, or in \<open>asyncio.sleep(delay)\<close>: the loop's test comes next\<close>
  | AwaitPlain string
      \<comment> \<open>in \<open>await asyncio.to_thread(fetch_plain, url)\<close>\<close>
  | AwaitRender string "page option"
      \<comment> \<open>in the \<open>await\<close> of the render fetch, with \<open>url\<close> and \<open>html\<close>\<close>
  | Finished
  | Crashed py_error
      \<comment> \<open>an exception left the coroutine\<close>

record crawl_config =
  variant :: variant
  start_url :: string
  max_pages :: int
  concurrency :: int
  ignore_robots :: bool
  use_sitemaps :: bool
  rp :: "(string \<Rightarrow> bool) option"
    \<comment> \<open>\<open>None\<close> when \<open>rp.read()\<close> raised, else \<open>rp.can_fetch(USER_AGENT, url)\<close>\<close>
  use_pw :: bool
    \<comment> \<open>\<open>use_pw\<close> once Playwright has started (products);
        \<open>browser_context is not None\<close> (ai)\<close>

record crawl_state =
  base_host :: string
  q :: "string option list"
  discovered :: "string option set"
  visited :: "string set"
  results :: "page_result list"
  workers :: "wstate list"
  seed_fetches :: "string list"
    \<comment> \<open>the calls of \<open>fetch_plain\<close> made before the workers start\<close>
  sitemap_requests :: "string list"
    \<comment> \<open>the \<open>requests.get\<close> of sitemap locations\<close>
  plain_fetches :: "string list"
    \<comment> \<open>the workers' calls of \<open>fetch_plain\<close>\<close>
  render_fetches :: "string list"
    \<comment> \<open>the workers' calls of \<open>fetch_with_playwright\<close>\<close>

definition robots_block :: "crawl_config \<Rightarrow> string \<Rightarrow> bool" where
  \<comment> \<open>\<open>rp and not ignore_robots and not rp.can_fetch(USER_AGENT, url)\<close>\<close>
  "robots_block c url =
     (case rp c of
        None \<Rightarrow> False
      | Some can_fetch \<Rightarrow> (if ignore_robots c then False else \<not> can_fetch url))"

function dequeue :: "crawl_config \<Rightarrow> crawl_state \<Rightarrow> wstate \<times> crawl_state" where
  \<comment> \<open>from the test of \<open>while q and len(visited) < max_pages\<close> to the first
      \<open>await\<close>: every \<open>continue\<close> on the way comes back to the test without one\<close>
  "dequeue c s =
     (case q s of
        [] \<Rightarrow> (Finished, s)
      | head # rest \<Rightarrow>
          if int (card (visited s)) < max_pages c then
            (case head of
               None \<Rightarrow> dequeue c (s\<lparr>q := rest\<rparr>)
             | Some url \<Rightarrow>
                 if url = [] then dequeue c (s\<lparr>q := rest\<rparr>)
                 else if url \<in> visited s then dequeue c (s\<lparr>q := rest\<rparr>)
                 else
                   (case urlparse url of
                      Inl e \<Rightarrow> (Crashed e, s\<lparr>q := rest\<rparr>)
                    | Inr parsed \<Rightarrow>
                        if netloc parsed \<noteq> base_host s
                        then dequeue c (s\<lparr>q := rest, visited := insert url (visited s)\<rparr>)
                        else if robots_block c url
                        then dequeue c (s\<lparr>q := rest, visited := insert url (visited s)\<rparr>)
                        else (AwaitPlain url,
                              s\<lparr>q := rest, plain_fetches := plain_fetches s @ [url]\<rparr>)))
          else (Finished, s))"
  by pat_completeness auto
termination
  by (relation "measure (\<lambda>(c, s). length (q s))") auto

declare dequeue.simps [simp del]

fun enqueue :: "crawl_config \<Rightarrow> string list \<Rightarrow> crawl_state \<Rightarrow> py_error option \<times> crawl_state" where
  \<comment> \<open>\<open>for l in links: ...\<close>, the links in the order the set yields them; an
      exception of \<open>urlparse\<close> ends the loop and leaves the coroutine\<close>
  "enqueue c [] s = (None, s)"
| "enqueue c (l # ls) s =
     (if l = [] then enqueue c ls s
      else if skipped_extension (variant c) l then enqueue c ls s
      else case urlparse l of
             Inl e \<Rightarrow> (Some e, s)
           | Inr parsed \<Rightarrow>
               if netloc parsed = base_host s \<and> Some l \<notin> discovered s
               then enqueue c ls (s\<lparr>discovered := insert (Some l) (discovered s),
                                   q := q s @ [Some l]\<rparr>)
               else enqueue c ls s)"

definition set_worker :: "nat \<Rightarrow> wstate \<Rightarrow> crawl_state \<Rightarrow> crawl_state" where
  "set_worker w st s = s\<lparr>workers := (workers s)[w := st]\<rparr>"

definition process ::
  "crawl_config \<Rightarrow> nat \<Rightarrow> string \<Rightarrow> page option \<Rightarrow> string list \<Rightarrow> bool \<Rightarrow> string list
     \<Rightarrow> crawl_state \<Rightarrow> crawl_state" where
  \<comment> \<open>from \<open>visited.add(url)\<close> to \<open>await asyncio.sleep(delay)\<close>. \<open>order\<close> is the order
      in which \<open>for l in links\<close> yields the set; when it is not an order of \<open>links\<close>
      the step does not happen.\<close>
  "process c w url html raw_js_candidates used_playwright order s =
     (let s1 = s\<lparr>visited := insert url (visited s)\<rparr>
      in case html of
           None \<Rightarrow> set_worker w AtLoop s1
         | Some doc \<Rightarrow>
            if html_len doc = 0 then set_worker w AtLoop s1
            else
              (case extract_links_from_html (variant c) url doc of
                 Inl e \<Rightarrow> set_worker w (Crashed e) s1
               | Inr extracted \<Rightarrow>
                  (let links = merge_candidates (variant c) url raw_js_candidates extracted
                   in if set order = links \<and> distinct order then
                        (let s2 = s1\<lparr>results := results s1
                                       @ [make_result (variant c) url doc used_playwright links]\<rparr>
                         in case enqueue c order s2 of
                              (Some e, s3) \<Rightarrow> set_worker w (Crashed e) s3
                            | (None, s3) \<Rightarrow> set_worker w AtLoop s3)
                      else s)))"

definition render_threshold :: "variant \<Rightarrow> nat" where
  "render_threshold v = (case v of Products \<Rightarrow> 600 | AI \<Rightarrow> 500)"

definition wants_render :: "crawl_config \<Rightarrow> page option \<Rightarrow> bool" where
  \<comment> \<open>\<open>(not html or len(html) < 600) and use_pw\<close>\<close>
  "wants_render c html =
     (use_pw c \<and> (case html of None \<Rightarrow> True
                  | Some p \<Rightarrow> html_len p < render_threshold (variant c)))"

definition after_render :: "variant \<Rightarrow> page option \<Rightarrow> page option \<Rightarrow> page option" where
  \<comment> \<open>products: \<open>html = content or html\<close>; ai: \<open>html\<close> is the content\<close>
  "after_render v html content =
     (case v of Products \<Rightarrow> (if no_html content then html else content) | AI \<Rightarrow> content)"

datatype event =
    Wake nat
      \<comment> \<open>the event loop runs the worker that stands at the loop's test\<close>
  | PlainDone nat "page option" "string list"
      \<comment> \<open>\<open>fetch_plain\<close> has returned; the list is the order of \<open>links\<close>, used when no
          render fetch follows\<close>
  | RenderDone nat "page option" "string list" "string list"
      \<comment> \<open>the render fetch has returned the content and the raw candidates\<close>
  | RenderRaised nat py_error
      \<comment> \<open>the render fetch has raised (\<open>context.new_page()\<close> failed)\<close>

definition step :: "crawl_config \<Rightarrow> event \<Rightarrow> crawl_state \<Rightarrow> crawl_state" where
  \<comment> \<open>one worker runs from one \<open>await\<close> to its next; an event for a worker that does
      not stand where the event says changes nothing\<close>
  "step c ev s =
     (case ev of
        Wake w \<Rightarrow>
          if w < length (workers s) \<and> workers s ! w = AtLoop
          then (case dequeue c s of (st, s1) \<Rightarrow> set_worker w st s1)
          else s
      | PlainDone w html order \<Rightarrow>
          if w < length (workers s) then
            (case workers s ! w of
               AwaitPlain url \<Rightarrow>
                 if wants_render c html
                 then set_worker w (AwaitRender url html)
                        (s\<lparr>render_fetches := render_fetches s @ [url]\<rparr>)
                 else process c w url html [] False order s
             | _ \<Rightarrow> s)
          else s
      | RenderDone w content raw_js_candidates order \<Rightarrow>
          if w < length (workers s) then
            (case workers s ! w of
               AwaitRender url html \<Rightarrow>
                 process c w url (after_render (variant c) html content)
                   raw_js_candidates True order s
             | _ \<Rightarrow> s)
          else s
      | RenderRaised w e \<Rightarrow>
          if w < length (workers s) \<and> variant c = AI then
            (case workers s ! w of
               AwaitRender url html \<Rightarrow> set_worker w (Crashed e) s
             | _ \<Rightarrow> s)
          else s)"

definition exec :: "crawl_config \<Rightarrow> event list \<Rightarrow> crawl_state \<Rightarrow> crawl_state" where
  \<comment> \<open>the event loop: the workers' steps in any order\<close>
  "exec c evs s = fold (step c) evs s"

text \<open>
  Before the workers start, \<open>robust_crawl\<close> can seed the frontier from sitemaps. What
  the site answers then is the seeding's environment.
\<close>

record seed_env =
  probe_ok :: "string \<Rightarrow> bool"
    \<comment> \<open>\<open>requests.get(s)\<close> gave status 200 and a text with \<open><urlset\<close>\<close>
  start_page :: "page option"
    \<comment> \<open>what \<open>fetch_plain(start_url)\<close> returns\<close>
  sitemaps :: sitemap_web
  depth :: nat
    \<comment> \<open>the number of nested calls of \<open>fetch_sitemap_urls\<close> the interpreter allows\<close>

definition base_root :: "url_parts \<Rightarrow> string" where
  "base_root parsed = scheme parsed @ ''://'' @ netloc parsed"

definition sitemap_candidates :: "string \<Rightarrow> string list" where
  "sitemap_candidates root_url =
     [root_url @ ''/sitemap.xml'', root_url @ ''/sitemap_index.xml'',
      root_url @ ''/sitemap-index.xml'', root_url @ ''/sitemap.xml.gz'']"

definition sitemap_links :: "string \<Rightarrow> page option \<Rightarrow> string list" where
  \<comment> \<open>the sitemap links of the start page: \<open>href and 'sitemap' in href\<close>, normalized
      against \<open>start_url\<close>\<close>
  "sitemap_links start html =
     (if no_html html then []
      else filter (\<lambda>full. full \<noteq> [])
             (List.map_filter (\<lambda>href. normalize_url href (Some start))
                (filter (\<lambda>href. href \<noteq> [] \<and> contains href ''sitemap'')
                   (case html of None \<Rightarrow> [] | Some p \<Rightarrow> anchors p))))"

fun load_sitemaps ::
  "seed_env \<Rightarrow> string list \<Rightarrow> string list \<Rightarrow> string list
     \<Rightarrow> (string list \<times> string list) option" where
  \<comment> \<open>\<open>for s in found_sitemaps: urls = fetch_sitemap_urls(s); ...\<close>: the normalized
      URLs gathered and the requests made\<close>
  "load_sitemaps env [] urls requested = Some (urls, requested)"
| "load_sitemaps env (s # ss) urls requested =
     (case fetch_sitemap_urls (depth env) (sitemaps env) s requested of
        (None, requested') \<Rightarrow> None
      | (Some found, requested') \<Rightarrow>
          load_sitemaps env ss
            (urls @ filter (\<lambda>nu. nu \<noteq> []) (List.map_filter (\<lambda>u. normalize_url u None) found))
            requested')"

definition seed ::
  "crawl_config \<Rightarrow> seed_env \<Rightarrow> string \<Rightarrow> (string list \<times> string list \<times> string list) option" where
  \<comment> \<open>the block \<open>if use_sitemaps:\<close> of \<open>robust_crawl\<close>: the normalized URLs to add to
      \<open>initial_urls\<close>, the calls of \<open>fetch_plain\<close> and the sitemap requests\<close>
  "seed c env root_url =
     (if variant c = Products \<and> use_sitemaps c then
        (let candidates = sitemap_candidates root_url;
             probed = filter (probe_ok env) candidates;
             found_sitemaps = (if probed = [] then remdups (sitemap_links (start_url c) (start_page env))
                               else probed);
             fetched = (if probed = [] then [start_url c] else [])
         in case load_sitemaps env found_sitemaps [] candidates of
              None \<Rightarrow> None
            | Some (urls, requested) \<Rightarrow> Some (urls, fetched, requested))
      else Some ([], [], []))"

definition initial_queue :: "string option list \<Rightarrow> py_error + string option list" where
  \<comment> \<open>\<open>deque(sorted(initial_urls))\<close>: \<open>None\<close> and a string do not compare\<close>
  "initial_queue initial_urls =
     (if None \<in> set initial_urls \<and> 1 < length (remdups initial_urls) then Inl TypeError
      else if None \<in> set initial_urls then Inr [None]
      else Inr (map Some (sort (remdups (List.map_filter id initial_urls)))))"

definition crawl_init ::
  "crawl_config \<Rightarrow> seed_env \<Rightarrow> (py_error + crawl_state) option" where
  \<comment> \<open>\<open>robust_crawl\<close> and \<open>crawl\<close> up to the creation of the workers\<close>
  "crawl_init c env =
     (case urlparse (start_url c) of
        Inl e \<Rightarrow> Some (Inl e)
      | Inr parsed \<Rightarrow>
         (case normalize (variant c) (start_url c) None of
            Inl e \<Rightarrow> Some (Inl e)
          | Inr start_norm \<Rightarrow>
             (case seed c env (base_root parsed) of
                None \<Rightarrow> None
              | Some (urls, fetched, requested) \<Rightarrow>
                 (case initial_queue (start_norm # map Some urls) of
                    Inl e \<Rightarrow> Some (Inl e)
                  | Inr queue \<Rightarrow>
                      if variant c = Products \<and> concurrency c < 0 then Some (Inl ValueError)
                      else Some (Inr
                        \<lparr>base_host = netloc parsed,
                         q = queue,
                         discovered = set (start_norm # map Some urls),
                         visited = {},
                         results = [],
                         workers = replicate (nat (concurrency c)) AtLoop,
                         seed_fetches = fetched,
                         sitemap_requests = requested,
                         plain_fetches = [],
                         render_fetches = []\<rparr>)))))"

definition crawl_run ::
  "crawl_config \<Rightarrow> seed_env \<Rightarrow> event list \<Rightarrow> (py_error + crawl_state) option" where
  \<comment> \<open>a run: the start, then the workers' steps. \<open>Inl\<close>: an exception left the
      function before the workers started. \<open>None\<close> would be a seeding that does not
      return; \<open>crawl_run_returns\<close> shows there is none.\<close>
  "crawl_run c env evs =
     (case crawl_init c env of
        None \<Rightarrow> None
      | Some (Inl e) \<Rightarrow> Some (Inl e)
      | Some (Inr s) \<Rightarrow> Some (Inr (exec c evs s)))"

definition has_upper :: "string \<Rightarrow> bool" where
  \<comment> \<open>the string holds an upper-case letter: \<open>lower\<close> changes it\<close>
  "has_upper s = (lower s \<noteq> s)"

section \<open>Plain URLs\<close>

text \<open>
  The shape of URL the claims about \<open>normalize_url\<close> speak of: a scheme, \<open>://\<close>, a
  host and a path, with none of the characters that would start another component.
\<close>

definition plain_scheme :: "string \<Rightarrow> bool" where
  \<comment> \<open>a scheme \<open>urlsplit\<close> recognises: a letter, then letters, digits, \<open>+ - .\<close>\<close>
  "plain_scheme s = (s \<noteq> [] \<and> ascii_alpha (hd s) \<and> list_all scheme_char s)"

definition plain_host :: "string \<Rightarrow> bool" where
  \<comment> \<open>no \<open>/ ? #\<close>, no tab, carriage return or line feed, and no square bracket\<close>
  "plain_host n =
     (n \<noteq> [] \<and> list_all (\<lambda>c. \<not> netloc_delim c \<and> \<not> unsafe_byte c
                              \<and> c \<noteq> CHR ''['' \<and> c \<noteq> CHR '']'') n)"

definition plain_path :: "string \<Rightarrow> bool" where
  \<comment> \<open>empty, or from a \<open>/\<close> on, with no \<open>? # ;\<close> and no tab, carriage return or
      line feed\<close>
  "plain_path p =
     ((p = [] \<or> hd p = CHR ''/'')
      \<and> list_all (\<lambda>c. c \<noteq> CHR ''?'' \<and> c \<noteq> CHR ''#'' \<and> c \<noteq> CHR '';'' \<and> \<not> unsafe_byte c) p)"

definition only_slashes :: "string \<Rightarrow> bool" where
  "only_slashes p = (rstrip CHR ''/'' p = [])"

section \<open>What the workers keep true\<close>

text \<open>
  Between two steps of the workers the frontier, the set \<open>discovered\<close> and the two
  lists of fetches stand in a fixed relation: no URL is twice among the URLs fetched and
  the URLs waiting in the frontier, and all of them are in \<open>discovered\<close>; a URL is
  rendered only after its plain fetch; no URL fetched is one the robots policy blocks;
  and two workers never wait for the plain fetch of the same URL.
\<close>

definition same_logs :: "crawl_state \<Rightarrow> crawl_state \<Rightarrow> bool" where
  "same_logs s s' =
     (base_host s' = base_host s \<and> seed_fetches s' = seed_fetches s
      \<and> sitemap_requests s' = sitemap_requests s \<and> render_fetches s' = render_fetches s)"

definition awaiting_ok :: "string list \<Rightarrow> string list \<Rightarrow> wstate list \<Rightarrow> bool" where
  "awaiting_ok fetched rendered ws =
     (\<forall>i<length ws. \<forall>u. ws ! i = AwaitPlain u \<longrightarrow>
        u \<in> set fetched \<and> u \<notin> set rendered
        \<and> (\<forall>j<length ws. ws ! j = AwaitPlain u \<longrightarrow> j = i))"

definition fetch_once :: "crawl_config \<Rightarrow> crawl_state \<Rightarrow> bool" where
  "fetch_once c s =
     (distinct (map Some (plain_fetches s) @ q s)
      \<and> set (q s) \<union> Some ` set (plain_fetches s) \<subseteq> discovered s
      \<and> distinct (render_fetches s)
      \<and> set (render_fetches s) \<subseteq> set (plain_fetches s)
      \<and> (\<forall>u \<in> set (plain_fetches s). \<not> robots_block c u)
      \<and> awaiting_ok (plain_fetches s) (render_fetches s) (workers s))"

text \<open>
  When no URL of the frontier has the crawl's host, no worker ever starts a fetch: the
  frontier holds URLs of other hosts only, nothing has been fetched or recorded, and
  every worker is at the loop's test or has ended.
\<close>

definition off_domain :: "crawl_state \<Rightarrow> bool" where
  "off_domain s =
     ((\<forall>u p. Some u \<in> set (q s) \<longrightarrow> urlparse u = Inr p \<longrightarrow> netloc p \<noteq> base_host s)
      \<and> plain_fetches s = [] \<and> render_fetches s = [] \<and> results s = []
      \<and> (\<forall>st \<in> set (workers s). st = AtLoop \<or> st = Finished \<or> (\<exists>e. st = Crashed e)))"

section \<open>A small site\<close>

text \<open>
  The site the closed theorems below run the crawlers on: \<open>http://x.com\<close>, with a
  sitemap of two pages, and a sitemap index that lists itself.
\<close>

definition sm_element :: "string \<Rightarrow> string option \<Rightarrow> xml list \<Rightarrow> xml" where
  \<comment> \<open>an element in the namespace of the sitemap protocol\<close>
  "sm_element name txt cs = Element (CHR ''{'' # sitemaps_ns @ CHR ''}'' # name) txt cs"

definition urlset :: "string list \<Rightarrow> xml" where
  "urlset locs =
     sm_element ''urlset'' None
       (map (\<lambda>l. sm_element ''url'' None [sm_element ''loc'' (Some l) []]) locs)"

definition sitemapindex :: "string list \<Rightarrow> xml" where
  "sitemapindex locs =
     sm_element ''sitemapindex'' None
       (map (\<lambda>l. sm_element ''sitemap'' None [sm_element ''loc'' (Some l) []]) locs)"

definition looping_site :: sitemap_web where
  \<comment> \<open>\<open>http://x.com/sitemap.xml\<close> is a sitemap index whose one entry is itself\<close>
  "looping_site u =
     (if u = ''http://x.com/sitemap.xml''
      then Some (sitemapindex [''http://x.com/sitemap.xml'']) else None)"

definition two_page_site :: sitemap_web where
  \<comment> \<open>\<open>http://x.com/sitemap.xml\<close> lists the pages \<open>/a\<close> and \<open>/b\<close>\<close>
  "two_page_site u =
     (if u = ''http://x.com/sitemap.xml''
      then Some (urlset [''http://x.com/a'', ''http://x.com/b'']) else None)"

definition blank_page :: page where
  \<comment> \<open>a document of 1000 characters with no link in it\<close>
  "blank_page = \<lparr>html_len = 1000, anchors = [], data_attrs = [], onclick_targets = [],
                  rel_links = [], h1_text = None, title_string = None, body_text = []\<rparr>"

definition with_sitemap :: seed_env where
  \<comment> \<open>the site answers \<open>/sitemap.xml\<close> with the sitemap of two pages\<close>
  "with_sitemap = \<lparr>probe_ok = (\<lambda>s. s = ''http://x.com/sitemap.xml''), start_page = None,
                    sitemaps = two_page_site, depth = 3\<rparr>"

definition without_sitemap :: seed_env where
  \<comment> \<open>the site has no sitemap, and its start page links to none\<close>
  "without_sitemap = \<lparr>probe_ok = (\<lambda>s. False), start_page = Some blank_page,
                       sitemaps = (\<lambda>u. None), depth = 3\<rparr>"

definition small_crawl :: crawl_config where
  \<comment> \<open>\<open>--start-url http://x.com/ --max-pages 1 --concurrency 2 --use-sitemaps
      --no-playwright\<close>, the site's robots.txt allowing everything\<close>
  "small_crawl = \<lparr>variant = Products, start_url = ''http://x.com/'', max_pages = 1,
                   concurrency = 2, ignore_robots = False, use_sitemaps = True,
                   rp = Some (\<lambda>url. True), use_pw = False\<rparr>"

definition forbidden_crawl :: crawl_config where
  \<comment> \<open>the same with a page budget of 10, on a site whose robots.txt disallows
      everything\<close>
  "forbidden_crawl = small_crawl\<lparr>max_pages := 10, rp := Some (\<lambda>url. False)\<rparr>"






definition upper_crawl :: crawl_config where
  \<comment> \<open>the crawl of \<open>small_crawl\<close> started at \<open>http://X.com/\<close>, with a page budget
      of 10\<close>
  "upper_crawl = small_crawl\<lparr>start_url := ''http://X.com/'', max_pages := 10\<rparr>"

section \<open>Progress of the render fetch\<close>



definition inner_call :: "pw_call \<Rightarrow> bool" where
  \<comment> \<open>the calls of the scrolling, hovering, clicking and collecting\<close>
  "inner_call c =
     (case c of
        Evaluate js \<Rightarrow> True | QuerySelector sel \<Rightarrow> True | Hover \<Rightarrow> True
      | QuerySelectorAll \<Rightarrow> True | Click \<Rightarrow> True | _ \<Rightarrow> False)"





section \<open>Characters and strings\<close>

lemma char_eq_code: "c = d \<longleftrightarrow> (of_char c :: nat) = of_char d"
  by simp

lemma ascii_alpha_code:
  "ascii_alpha c \<longleftrightarrow> (65 \<le> (of_char c :: nat) \<and> (of_char c :: nat) \<le> 90) \<or> (97 \<le> (of_char c :: nat) \<and> (of_char c :: nat) \<le> 122)"
  unfolding ascii_alpha_def
  apply (simp add: char_eq_code [of c] del: of_char_eq_iff)
  apply arith
  done

lemma scheme_char_code:
  "scheme_char c \<longleftrightarrow> (65 \<le> (of_char c :: nat) \<and> (of_char c :: nat) \<le> 90) \<or> (97 \<le> (of_char c :: nat) \<and> (of_char c :: nat) \<le> 122)
     \<or> (48 \<le> (of_char c :: nat) \<and> (of_char c :: nat) \<le> 57) \<or> (of_char c :: nat) = 43 \<or> (of_char c :: nat) = 45 \<or> (of_char c :: nat) = 46"
  unfolding scheme_char_def
  apply (simp add: char_eq_code [of c] del: of_char_eq_iff)
  apply arith
  done

lemma of_char_lower:
  "(of_char (lower_char c) :: nat) =
     (if (65 \<le> (of_char c :: nat) \<and> (of_char c :: nat) \<le> 90)
         \<or> (192 \<le> (of_char c :: nat) \<and> (of_char c :: nat) \<le> 222 \<and> (of_char c :: nat) \<noteq> 215)
      then of_char c + 32 else of_char c)"
  by (simp add: lower_char_def Let_def)

lemma lower_char_idem: "lower_char (lower_char c) = lower_char c"
  by (simp add: char_eq_code [of "lower_char (lower_char c)"] of_char_lower del: of_char_eq_iff)

lemma lower_idem: "lower (lower s) = lower s"
  by (simp add: lower_def lower_char_idem)

lemma scheme_char_lower: "scheme_char c \<Longrightarrow> scheme_char (lower_char c)"
  by (auto simp: scheme_char_code of_char_lower)

lemma ascii_alpha_lower: "ascii_alpha c \<Longrightarrow> ascii_alpha (lower_char c)"
  by (auto simp: ascii_alpha_code of_char_lower)

lemma ascii_alpha_not_c0: "ascii_alpha c \<Longrightarrow> \<not> c0_or_space c"
  by (auto simp: ascii_alpha_code c0_or_space_def)

lemma netloc_delim_code:
  "netloc_delim c \<longleftrightarrow> (of_char c :: nat) = 47 \<or> (of_char c :: nat) = 63 \<or> (of_char c :: nat) = 35"
  by (simp add: netloc_delim_def char_eq_code [of c] del: of_char_eq_iff)

lemma unsafe_byte_code:
  "unsafe_byte c \<longleftrightarrow> (of_char c :: nat) = 9 \<or> (of_char c :: nat) = 13 \<or> (of_char c :: nat) = 10"
  by (simp add: unsafe_byte_def char_eq_code [of c] del: of_char_eq_iff)

lemma scheme_char_plain:
  "scheme_char c \<Longrightarrow> c \<noteq> CHR '':'' \<and> \<not> unsafe_byte c \<and> \<not> netloc_delim c \<and> \<not> c0_or_space c"
  by (auto simp: scheme_char_code unsafe_byte_code netloc_delim_code c0_or_space_def char_eq_code [of c] simp del: of_char_eq_iff)

lemma netloc_delim_lower: "netloc_delim (lower_char c) = netloc_delim c"
  by (auto simp: netloc_delim_code of_char_lower)

lemma unsafe_byte_lower: "unsafe_byte (lower_char c) = unsafe_byte c"
  by (auto simp: unsafe_byte_code of_char_lower)

lemma bracket_lower:
  "lower_char c = CHR ''['' \<longleftrightarrow> c = CHR ''[''" "lower_char c = CHR '']'' \<longleftrightarrow> c = CHR '']''"
  by (auto simp: char_eq_code [of "lower_char c"] char_eq_code [of c] of_char_lower simp del: of_char_eq_iff)

lemma before_append: "c \<notin> set xs \<Longrightarrow> before c (xs @ c # ys) = xs"
  by (auto simp: before_def takeWhile_tail)

lemma after_append: "c \<notin> set xs \<Longrightarrow> after c (xs @ c # ys) = ys"
proof -
  assume "c \<notin> set xs"
  then have "dropWhile (\<lambda>x. x \<noteq> c) (xs @ c # ys) = c # ys"
    by (induction xs) auto
  then show ?thesis by (simp add: after_def)
qed

lemma before_none: "c \<notin> set xs \<Longrightarrow> before c xs = xs"
  by (auto simp: before_def)

lemma scheme_char_safe: "scheme_char c \<Longrightarrow> \<not> unsafe_byte c"
  by (simp add: scheme_char_plain)

lemma scheme_char_not_colon: "scheme_char c \<Longrightarrow> c \<noteq> CHR '':''"
  by (simp add: scheme_char_plain)

lemma filter_safe_hd:
  assumes "r = [] \<or> netloc_delim (hd r)"
  shows "filter (\<lambda>c. \<not> unsafe_byte c) r = [] \<or> netloc_delim (hd (filter (\<lambda>c. \<not> unsafe_byte c) r))"
proof (cases r)
  case Nil
  then show ?thesis by simp
next
  case (Cons a as)
  with assms have "netloc_delim a" by simp
  then have "\<not> unsafe_byte a" by (auto simp: netloc_delim_code unsafe_byte_code)
  with Cons \<open>netloc_delim a\<close> show ?thesis by simp
qed

lemma urlsplit_canonical:
  assumes s: "s \<noteq> []" "ascii_alpha (hd s)" "list_all scheme_char s"
      and n: "list_all (\<lambda>c. \<not> netloc_delim c \<and> \<not> unsafe_byte c) n" "brackets_paired n"
      and r: "r = [] \<or> netloc_delim (hd r)"
      and r': "r' = filter (\<lambda>c. \<not> unsafe_byte c) r"
  shows "urlsplit (s @ ''://'' @ n @ r) d =
           Inr \<lparr>scheme = lower s, netloc = n,
                path = before CHR ''?'' (before CHR ''#'' r'), params = [],
                query = (if CHR ''?'' \<in> set (before CHR ''#'' r')
                         then after CHR ''?'' (before CHR ''#'' r') else []),
                fragment = (if CHR ''#'' \<in> set r' then after CHR ''#'' r' else [])\<rparr>"
proof -
  define U where "U = s @ CHR '':'' # ''//'' @ n @ r'"
  have hdU: "hd U = hd s" using s(1) by (simp add: U_def)
  have "\<not> c0_or_space (hd s)" using s(2) by (rule ascii_alpha_not_c0)
  then have drop: "dropWhile c0_or_space (s @ ''://'' @ n @ r) = s @ ''://'' @ n @ r"
    using s(1) by (cases s) auto
  have fs: "filter (\<lambda>c. \<not> unsafe_byte c) s = s"
    using s(3) by (simp add: list_all_iff scheme_char_safe)
  have fn: "filter (\<lambda>c. \<not> unsafe_byte c) n = n"
    using n(1) by (simp add: list_all_iff)
  have url1: "filter (\<lambda>c. \<not> unsafe_byte c) (dropWhile c0_or_space (s @ ''://'' @ n @ r)) = U"
  proof -
    have sep: "filter (\<lambda>c. \<not> unsafe_byte c) ''://'' = ''://''"
      by (simp add: unsafe_byte_def)
    have "filter (\<lambda>c. \<not> unsafe_byte c) (s @ ''://'' @ n @ r)
            = filter (\<lambda>c. \<not> unsafe_byte c) s @ filter (\<lambda>c. \<not> unsafe_byte c) ''://''
              @ filter (\<lambda>c. \<not> unsafe_byte c) n @ filter (\<lambda>c. \<not> unsafe_byte c) r"
      by (simp only: filter_append)
    then show ?thesis
      by (simp only: drop fs fn sep U_def r') simp
  qed
  have colon: "CHR '':'' \<notin> set s"
    using s(3) scheme_char_not_colon by (fastforce simp: list_all_iff)
  have pre: "before CHR '':'' U = s"
    unfolding U_def by (rule before_append [OF colon])
  have post: "after CHR '':'' U = ''//'' @ n @ r'"
    unfolding U_def by (rule after_append [OF colon])
  have found: "(CHR '':'' \<in> set U \<and> s \<noteq> [] \<and> ascii_alpha (hd U)
                 \<and> list_all scheme_char s) = True"
    using s by (simp add: hdU) (simp add: U_def)
  from r r' have rr: "r' = [] \<or> netloc_delim (hd r')" by (simp add: filter_safe_hd)
  have nd: "\<forall>x\<in>set n. \<not> netloc_delim x" using n(1) by (auto simp: list_all_iff)
  have tw: "takeWhile (\<lambda>c. \<not> netloc_delim c) (n @ r') = n"
    using nd rr by (auto simp: takeWhile_eq_Nil_iff)
  have dw: "dropWhile (\<lambda>c. \<not> netloc_delim c) (n @ r') = r'"
    using nd rr by (cases r') auto
  have sn: "splitnetloc (''//'' @ n @ r') = (n, r')"
    by (simp add: splitnetloc_def tw dw)
  have t2: "take 2 (''//'' @ n @ r') = ''//''" by simp
  show ?thesis
    by (simp only: urlsplit_def Let_def url1 found post if_True sn t2 fst_conv snd_conv n(2) pre refl)
qed

lemma rstrip_no_suffix: "\<not> endswith p [c] \<Longrightarrow> rstrip c p = p"
proof (cases "rev p")
  case Nil
  then show ?thesis by (simp add: rstrip_def)
next
  case (Cons a as)
  assume ne: "\<not> endswith p [c]"
  from Cons have p: "p = rev as @ [a]" by (metis rev_rev_ident rev.simps(2))
  with ne have "a \<noteq> c" by (auto simp: endswith_def)
  with Cons show ?thesis by (simp add: rstrip_def p)
qed

lemma rstrip_prefix: "\<exists>k. p = rstrip c p @ replicate k c"
proof -
  have "\<exists>k. xs = replicate k c @ dropWhile (\<lambda>x. x = c) xs" for xs
  proof (induction xs)
    case Nil
    then show ?case by simp
  next
    case (Cons a xs)
    show ?case
    proof (cases "a = c")
      case True
      from Cons obtain k where "xs = replicate k c @ dropWhile (\<lambda>x. x = c) xs" by blast
      with True have "a # xs = replicate (Suc k) c @ dropWhile (\<lambda>x. x = c) (a # xs)" by simp
      then show ?thesis by blast
    next
      case False
      then have "a # xs = replicate 0 c @ dropWhile (\<lambda>x. x = c) (a # xs)" by simp
      then show ?thesis by blast
    qed
  qed
  then obtain k where "rev p = replicate k c @ dropWhile (\<lambda>x. x = c) (rev p)" by blast
  then have "rev (rev p) = rev (replicate k c @ dropWhile (\<lambda>x. x = c) (rev p))" by simp
  then have "p = rstrip c p @ replicate k c" by (simp add: rstrip_def)
  then show ?thesis by blast
qed

lemma rstrip_hd: "rstrip c p \<noteq> [] \<Longrightarrow> hd (rstrip c p) = hd p"
proof -
  assume ne: "rstrip c p \<noteq> []"
  obtain k where "p = rstrip c p @ replicate k c" using rstrip_prefix by blast
  then have "hd p = hd (rstrip c p @ replicate k c)" by simp
  with ne show ?thesis by simp
qed

lemma norm_path_eq:
  "norm_path p = (if p = [] \<or> p = ''/'' then ''/'' else rstrip CHR ''/'' p)"
  by (auto simp: norm_path_def Let_def rstrip_no_suffix)

lemma norm_path_hd:
  assumes "p = [] \<or> hd p = CHR ''/''"
  shows "norm_path p = [] \<or> hd (norm_path p) = CHR ''/''"
proof (cases "p = [] \<or> p = ''/''")
  case True
  then show ?thesis by (auto simp: norm_path_eq)
next
  case False
  with assms have "hd p = CHR ''/''" by simp
  then have "rstrip CHR ''/'' p = [] \<or> hd (rstrip CHR ''/'' p) = CHR ''/''"
    using rstrip_hd [of "CHR ''/''" p] by auto
  with False show ?thesis by (simp add: norm_path_eq)
qed

lemma norm_query_empty: "norm_query [] = []"
  by (simp add: norm_query_def parse_qsl_def)

lemma lower_eq_Nil: "lower s = [] \<longleftrightarrow> s = []"
  by (simp add: lower_def)

lemma urlparse_plain:
  assumes "plain_scheme s" "plain_host n" "plain_path p"
  shows "urlparse (s @ ''://'' @ n @ p) =
           Inr \<lparr>scheme = lower s, netloc = n, path = p, params = [], query = [], fragment = []\<rparr>"
proof -
  from assms(3) have safe: "filter (\<lambda>c. \<not> unsafe_byte c) p = p"
    and nq: "CHR ''?'' \<notin> set p" and nh: "CHR ''#'' \<notin> set p" and ns: "CHR '';'' \<notin> set p"
    by (auto simp: plain_path_def list_all_iff)
  from assms(3) have hd: "p = [] \<or> netloc_delim (hd p)"
    by (auto simp: plain_path_def netloc_delim_def)
  from assms(2) have n: "list_all (\<lambda>c. \<not> netloc_delim c \<and> \<not> unsafe_byte c) n" "brackets_paired n"
    by (auto simp: plain_host_def list_all_iff brackets_paired_def)
  from assms(1) have s: "s \<noteq> []" "ascii_alpha (hd s)" "list_all scheme_char s"
    by (auto simp: plain_scheme_def)
  have "urlsplit (s @ ''://'' @ n @ p) [] =
          Inr \<lparr>scheme = lower s, netloc = n, path = p, params = [], query = [], fragment = []\<rparr>"
    using urlsplit_canonical [OF s n hd safe [symmetric], of "[]"] nq nh
    by (simp add: before_none)
  then show ?thesis using ns by (simp add: urlparse_def urlparse_with_def)
qed

lemma normalized_with_host:
  assumes "sch \<noteq> []" "nl \<noteq> []" "pth = [] \<or> hd pth = CHR ''/''"
  shows "urlunparse \<lparr>scheme = sch, netloc = nl, path = pth, params = [], query = [], fragment = []\<rparr>
           = sch @ ''://'' @ nl @ pth"
  using assms by (cases pth) (auto simp: urlunparse_def urlunsplit_def Let_def)


section \<open>Parsing a normalized URL again\<close>

text \<open>
  What \<open>urlsplit\<close> returns when it returns: the netloc is the text between \<open>//\<close> and
  the first of \<open>/ ? #\<close>, its brackets pair up, and the scheme, when there is one, is a
  letter followed by scheme characters.
\<close>

lemma urlsplit_Inr:
  fixes y d :: string
  defines "url1 \<equiv> filter (\<lambda>c. \<not> unsafe_byte c) (dropWhile c0_or_space y)"
  defines "found \<equiv> (CHR '':'' \<in> set url1 \<and> before CHR '':'' url1 \<noteq> [] \<and> ascii_alpha (hd url1)
                      \<and> list_all scheme_char (before CHR '':'' url1))"
  defines "url2 \<equiv> (if found then after CHR '':'' url1 else url1)"
  defines "nl \<equiv> (if take 2 url2 = ''//'' then fst (splitnetloc url2) else [])"
  assumes "urlsplit y d = Inr r"
  shows "netloc r = nl"
    and "brackets_paired nl"
    and "scheme r = (if found then lower (before CHR '':'' url1)
                     else filter (\<lambda>c. \<not> unsafe_byte c)
                            (rev (dropWhile c0_or_space (rev (dropWhile c0_or_space d)))))"
proof -
  have b: "brackets_paired nl"
  proof (rule ccontr)
    assume "\<not> brackets_paired nl"
    then have "urlsplit y d = Inl ValueError"
      unfolding nl_def url2_def found_def url1_def by (simp add: urlsplit_def Let_def)
    with assms(5) show False by simp
  qed
  then show "brackets_paired nl" .
  from b have paired: "brackets_paired
     (if take 2 (if CHR '':'' \<in> set (filter (\<lambda>c. \<not> unsafe_byte c) (dropWhile c0_or_space y))
           \<and> before CHR '':'' (filter (\<lambda>c. \<not> unsafe_byte c) (dropWhile c0_or_space y)) \<noteq> []
           \<and> ascii_alpha (hd (filter (\<lambda>c. \<not> unsafe_byte c) (dropWhile c0_or_space y)))
           \<and> list_all scheme_char (before CHR '':'' (filter (\<lambda>c. \<not> unsafe_byte c) (dropWhile c0_or_space y)))
        then after CHR '':'' (filter (\<lambda>c. \<not> unsafe_byte c) (dropWhile c0_or_space y))
        else filter (\<lambda>c. \<not> unsafe_byte c) (dropWhile c0_or_space y)) = ''//''
      then fst (splitnetloc (if CHR '':'' \<in> set (filter (\<lambda>c. \<not> unsafe_byte c) (dropWhile c0_or_space y))
           \<and> before CHR '':'' (filter (\<lambda>c. \<not> unsafe_byte c) (dropWhile c0_or_space y)) \<noteq> []
           \<and> ascii_alpha (hd (filter (\<lambda>c. \<not> unsafe_byte c) (dropWhile c0_or_space y)))
           \<and> list_all scheme_char (before CHR '':'' (filter (\<lambda>c. \<not> unsafe_byte c) (dropWhile c0_or_space y)))
        then after CHR '':'' (filter (\<lambda>c. \<not> unsafe_byte c) (dropWhile c0_or_space y))
        else filter (\<lambda>c. \<not> unsafe_byte c) (dropWhile c0_or_space y)))
      else [])"
    unfolding nl_def url2_def found_def url1_def .
  from assms(5) have rec: "r = \<lparr>scheme = scheme r, netloc = nl, path = path r, params = params r,
       query = query r, fragment = fragment r\<rparr>
     \<and> scheme r = (if found then lower (before CHR '':'' url1)
                     else filter (\<lambda>c. \<not> unsafe_byte c)
                            (rev (dropWhile c0_or_space (rev (dropWhile c0_or_space d)))))"
    unfolding urlsplit_def Let_def if_P [OF paired] nl_def url2_def found_def url1_def
    by (simp only: sum.inject) (erule subst, simp only: url_parts.simps simp_thms)
  then show "netloc r = nl" by (metis url_parts.select_convs(2))
  from rec show "scheme r = (if found then lower (before CHR '':'' url1)
                     else filter (\<lambda>c. \<not> unsafe_byte c)
                            (rev (dropWhile c0_or_space (rev (dropWhile c0_or_space d)))))"
    by simp
qed

lemma urlsplit_netloc:
  assumes "urlsplit y d = Inr r"
  shows "list_all (\<lambda>c. \<not> netloc_delim c \<and> \<not> unsafe_byte c) (netloc r)"
    and "brackets_paired (netloc r)"
proof -
  define url1 where "url1 = filter (\<lambda>c. \<not> unsafe_byte c) (dropWhile c0_or_space y)"
  define url2 where "url2 = (if CHR '':'' \<in> set url1 \<and> before CHR '':'' url1 \<noteq> []
                                \<and> ascii_alpha (hd url1) \<and> list_all scheme_char (before CHR '':'' url1)
                             then after CHR '':'' url1 else url1)"
  define nl where "nl = (if take 2 url2 = ''//'' then fst (splitnetloc url2) else [])"
  from urlsplit_Inr(1,2) [OF assms] have r: "netloc r = nl" and b: "brackets_paired nl"
    unfolding nl_def url2_def url1_def by simp_all
  have "set url2 \<subseteq> set url1"
    by (auto simp: url2_def after_def dest: in_set_dropD set_dropWhileD)
  moreover have "\<forall>c \<in> set url1. \<not> unsafe_byte c" by (simp add: url1_def)
  moreover have "set nl \<subseteq> set url2"
    by (auto simp: nl_def splitnetloc_def Let_def dest: set_takeWhileD in_set_dropD)
  moreover have "\<forall>c \<in> set nl. \<not> netloc_delim c"
    by (auto simp: nl_def splitnetloc_def Let_def dest: set_takeWhileD)
  ultimately show "list_all (\<lambda>c. \<not> netloc_delim c \<and> \<not> unsafe_byte c) (netloc r)"
    unfolding r list_all_iff by blast
  show "brackets_paired (netloc r)" using b r by simp
qed

lemma hd_lower: "s \<noteq> [] \<Longrightarrow> hd (lower s) = lower_char (hd s)"
  by (cases s) (simp_all add: lower_def)

lemma bracket_in_lower:
  "CHR ''['' \<in> set (lower s) \<longleftrightarrow> CHR ''['' \<in> set s"
  "CHR '']'' \<in> set (lower s) \<longleftrightarrow> CHR '']'' \<in> set s"
proof -
  have "CHR ''['' \<in> set (lower s) \<longleftrightarrow> (\<exists>x \<in> set s. lower_char x = CHR ''['')"
    by (force simp: lower_def)
  then show "CHR ''['' \<in> set (lower s) \<longleftrightarrow> CHR ''['' \<in> set s"
    by (simp add: bracket_lower)
  have "CHR '']'' \<in> set (lower s) \<longleftrightarrow> (\<exists>x \<in> set s. lower_char x = CHR '']'')"
    by (force simp: lower_def)
  then show "CHR '']'' \<in> set (lower s) \<longleftrightarrow> CHR '']'' \<in> set s"
    by (simp add: bracket_lower)
qed

lemma list_all_lower:
  "(\<And>c. P c \<Longrightarrow> P (lower_char c)) \<Longrightarrow> list_all P s \<Longrightarrow> list_all P (lower s)"
  by (simp add: lower_def list_all_iff)

lemma urlsplit_scheme:
  assumes "urlsplit y [] = Inr r"
  shows "scheme r = [] \<or> (ascii_alpha (hd (scheme r)) \<and> list_all scheme_char (scheme r))"
proof -
  define url1 where "url1 = filter (\<lambda>c. \<not> unsafe_byte c) (dropWhile c0_or_space y)"
  define pre where "pre = before CHR '':'' url1"
  define found where "found = (CHR '':'' \<in> set url1 \<and> pre \<noteq> [] \<and> ascii_alpha (hd url1)
                                 \<and> list_all scheme_char pre)"
  from urlsplit_Inr(3) [OF assms] have r: "scheme r = (if found then lower pre else [])"
    unfolding found_def pre_def url1_def by simp
  show ?thesis
  proof (cases found)
    case False
    with r show ?thesis by simp
  next
    case True
    then have ne: "pre \<noteq> []" and al: "ascii_alpha (hd url1)" and sc: "list_all scheme_char pre"
      by (simp_all add: found_def)
    from ne have "hd pre = hd url1" by (cases url1) (auto simp: pre_def before_def split: if_splits)
    with al ne have "ascii_alpha (hd (lower pre))" by (simp add: hd_lower ascii_alpha_lower)
    moreover have "list_all scheme_char (lower pre)"
      using sc by (rule list_all_lower [rotated]) (rule scheme_char_lower)
    ultimately show ?thesis using True r by simp
  qed
qed

lemma urlparse_split:
  assumes "urlparse y = Inr parsed"
  shows "\<exists>r. urlsplit y [] = Inr r \<and> scheme parsed = scheme r \<and> netloc parsed = netloc r"
  using assms by (auto simp: urlparse_def urlparse_with_def split: sum.splits if_splits)

lemma normalized_shape:
  assumes "nl \<noteq> []" "sch \<noteq> []"
  shows "\<exists>r. urlunparse \<lparr>scheme = sch, netloc = nl, path = pth, params = [],
                         query = qry, fragment = []\<rparr> = sch @ ''://'' @ nl @ r
             \<and> (r = [] \<or> netloc_delim (hd r))"
proof -
  define p' where "p' = (if pth \<noteq> [] \<and> take 1 pth \<noteq> ''/'' then ''/'' @ pth else pth)"
  define r where "r = p' @ (if qry \<noteq> [] then ''?'' @ qry else [])"
  have "urlunparse \<lparr>scheme = sch, netloc = nl, path = pth, params = [],
                         query = qry, fragment = []\<rparr> = sch @ ''://'' @ nl @ r"
    using assms by (simp add: urlunparse_def urlunsplit_def Let_def r_def p'_def)
  moreover have "r = [] \<or> netloc_delim (hd r)"
    by (cases pth) (auto simp: r_def p'_def netloc_delim_def)
  ultimately show ?thesis by blast
qed

lemma urlparse_normalized:
  assumes "urlparse y = Inr parsed" and "netloc parsed \<noteq> []"
  shows "\<exists>p. urlparse (normalized parsed) = Inr p \<and> netloc p = lower (netloc parsed)"
proof -
  from urlparse_split [OF assms(1)] obtain r0 where
    r0: "urlsplit y [] = Inr r0" "scheme parsed = scheme r0" "netloc parsed = netloc r0"
    by blast
  define S where "S = lower (if scheme parsed = [] then ''http'' else scheme parsed)"
  define N where "N = lower (netloc parsed)"
  have http: "ascii_alpha (hd ''http'')" "list_all scheme_char ''http''"
    by (simp_all add: ascii_alpha_def scheme_char_def)
  have S: "S \<noteq> []" "ascii_alpha (hd S)" "list_all scheme_char S"
  proof -
    show "S \<noteq> []" by (simp add: S_def lower_eq_Nil)
    from urlsplit_scheme [OF r0(1)] r0(2)
    have alt: "scheme parsed = [] \<or> (ascii_alpha (hd (scheme parsed)) \<and> list_all scheme_char (scheme parsed))"
      by simp
    then have a: "ascii_alpha (hd (if scheme parsed = [] then ''http'' else scheme parsed))"
      and b: "list_all scheme_char (if scheme parsed = [] then ''http'' else scheme parsed)"
      using http by auto
    have ne: "(if scheme parsed = [] then ''http'' else scheme parsed) \<noteq> []" by simp
    show "ascii_alpha (hd S)" unfolding S_def using a by (simp only: hd_lower [OF ne] ascii_alpha_lower)
    show "list_all scheme_char S" unfolding S_def
      using b by (rule list_all_lower [rotated]) (rule scheme_char_lower)
  qed
  have N: "list_all (\<lambda>c. \<not> netloc_delim c \<and> \<not> unsafe_byte c) N" "brackets_paired N" "N \<noteq> []"
  proof -
    from urlsplit_netloc [OF r0(1)] r0(3)
    have a: "list_all (\<lambda>c. \<not> netloc_delim c \<and> \<not> unsafe_byte c) (netloc parsed)"
      and b: "brackets_paired (netloc parsed)" by simp_all
    show "list_all (\<lambda>c. \<not> netloc_delim c \<and> \<not> unsafe_byte c) N" unfolding N_def
      using a by (rule list_all_lower [rotated]) (simp add: netloc_delim_lower unsafe_byte_lower)
    show "brackets_paired N" using b
      by (simp add: N_def brackets_paired_def bracket_in_lower)
    show "N \<noteq> []" using assms(2) by (simp add: N_def lower_eq_Nil)
  qed
  from normalized_shape [OF N(3) S(1)] obtain r where
    shape: "normalized parsed = S @ ''://'' @ N @ r" and r: "r = [] \<or> netloc_delim (hd r)"
    unfolding normalized_def S_def N_def by blast
  from urlsplit_canonical [OF S N(1,2) r refl, of "[]"]
  obtain r1 where r1: "urlsplit (S @ ''://'' @ N @ r) [] = Inr r1" "netloc r1 = N"
    by simp
  have "\<exists>p. urlparse (S @ ''://'' @ N @ r) = Inr p \<and> netloc p = N"
    unfolding urlparse_def urlparse_with_def r1(1) using r1(2) by simp
  then show ?thesis unfolding shape N_def .
qed

text \<open>
  \<open>normalize_url\<close> cuts the fragment off before it parses; the crawl takes its host
  from the start URL as it is given. The netloc is the same in both.
\<close>

lemma dropWhile_takeWhile_commute:
  "(\<And>x. P x \<Longrightarrow> Q x) \<Longrightarrow> dropWhile P (takeWhile Q xs) = takeWhile Q (dropWhile P xs)"
  by (induction xs) auto

lemma filter_takeWhile_commute:
  "(\<And>x. \<not> Q x \<Longrightarrow> S x) \<Longrightarrow> filter S (takeWhile Q xs) = takeWhile Q (filter S xs)"
  by (induction xs) auto

lemma takeWhile_within:
  "(\<And>x. P x \<Longrightarrow> Q x) \<Longrightarrow> takeWhile P (takeWhile Q xs) = takeWhile P xs"
  by (induction xs) auto

lemma hash_not_c0: "c0_or_space c \<Longrightarrow> c \<noteq> CHR ''#''"
  by (auto simp: c0_or_space_def)

lemma hash_safe: "\<not> unsafe_byte CHR ''#''"
  by (simp add: unsafe_byte_def)

lemma hash_not_scheme_char: "scheme_char c \<Longrightarrow> c \<noteq> CHR ''#''"
  by (auto simp: scheme_char_def)

lemma split_at_colon:
  assumes "CHR '':'' \<in> set xs"
  shows "xs = before CHR '':'' xs @ CHR '':'' # after CHR '':'' xs"
proof -
  from assms have "dropWhile (\<lambda>x. x \<noteq> CHR '':'') xs \<noteq> []" by (simp add: dropWhile_eq_Nil_conv)
  moreover have "hd (dropWhile (\<lambda>x. x \<noteq> CHR '':'') xs) = CHR '':''"
    using assms hd_dropWhile [of "\<lambda>x. x \<noteq> CHR '':''" xs] calculation by auto
  ultimately have "dropWhile (\<lambda>x. x \<noteq> CHR '':'') xs = CHR '':'' # after CHR '':'' xs"
    by (cases "dropWhile (\<lambda>x. x \<noteq> CHR '':'') xs") (auto simp: after_def)
  then show ?thesis
    using takeWhile_dropWhile_id [of "\<lambda>x. x \<noteq> CHR '':''" xs] by (simp add: before_def)
qed


lemma take2_before_hash:
  "take 2 (before CHR ''#'' xs) = ''//'' \<longleftrightarrow> take 2 xs = ''//''"
proof (cases xs)
  case (Cons a as)
  then show ?thesis by (cases as) (auto simp: before_def)
qed (simp add: before_def)

lemma splitnetloc_before_hash:
  assumes "take 2 xs = ''//''"
  shows "fst (splitnetloc (before CHR ''#'' xs)) = fst (splitnetloc xs)"
proof -
  from assms obtain zs where xs: "xs = CHR ''/'' # CHR ''/'' # zs"
    by (cases xs; cases "tl xs") auto
  have "takeWhile (\<lambda>c. \<not> netloc_delim c) (takeWhile (\<lambda>x. x \<noteq> CHR ''#'') zs)
          = takeWhile (\<lambda>c. \<not> netloc_delim c) zs"
    by (rule takeWhile_within) (auto simp: netloc_delim_def)
  then show ?thesis by (simp add: xs splitnetloc_def before_def Let_def)
qed

lemma urlsplit_before_hash:
  assumes "urlsplit y d = Inr r" and "urlsplit (before CHR ''#'' y) d = Inr r'"
  shows "netloc r' = netloc r"
proof -
  define url1 where "url1 = filter (\<lambda>c. \<not> unsafe_byte c) (dropWhile c0_or_space y)"
  define pre where "pre = before CHR '':'' url1"
  define found where "found = (CHR '':'' \<in> set url1 \<and> pre \<noteq> [] \<and> ascii_alpha (hd url1)
                                 \<and> list_all scheme_char pre)"
  define url2 where "url2 = (if found then after CHR '':'' url1 else url1)"
  define url1' where "url1' = filter (\<lambda>c. \<not> unsafe_byte c) (dropWhile c0_or_space (before CHR ''#'' y))"
  define pre' where "pre' = before CHR '':'' url1'"
  define found' where "found' = (CHR '':'' \<in> set url1' \<and> pre' \<noteq> [] \<and> ascii_alpha (hd url1')
                                 \<and> list_all scheme_char pre')"
  define url2' where "url2' = (if found' then after CHR '':'' url1' else url1')"
  from urlsplit_Inr(1) [OF assms(1)]
  have r: "netloc r = (if take 2 url2 = ''//'' then fst (splitnetloc url2) else [])"
    unfolding url2_def found_def pre_def url1_def by simp
  from urlsplit_Inr(1) [OF assms(2)]
  have r': "netloc r' = (if take 2 url2' = ''//'' then fst (splitnetloc url2') else [])"
    unfolding url2'_def found'_def pre'_def url1'_def by simp
  have u1: "url1' = before CHR ''#'' url1"
  proof -
    have "dropWhile c0_or_space (takeWhile (\<lambda>x. x \<noteq> CHR ''#'') y)
            = takeWhile (\<lambda>x. x \<noteq> CHR ''#'') (dropWhile c0_or_space y)"
      by (rule dropWhile_takeWhile_commute) (rule hash_not_c0)
    moreover have "filter (\<lambda>c. \<not> unsafe_byte c) (takeWhile (\<lambda>x. x \<noteq> CHR ''#'') (dropWhile c0_or_space y))
            = takeWhile (\<lambda>x. x \<noteq> CHR ''#'') (filter (\<lambda>c. \<not> unsafe_byte c) (dropWhile c0_or_space y))"
      by (rule filter_takeWhile_commute) (simp add: hash_safe)
    ultimately show ?thesis by (simp add: url1'_def url1_def before_def)
  qed
  have u2: "url2' = before CHR ''#'' url2"
  proof (cases found)
    case True
    then have colon: "CHR '':'' \<in> set url1" and ne: "pre \<noteq> []" and al: "ascii_alpha (hd url1)"
      and sc: "list_all scheme_char pre" by (simp_all add: found_def)
    from split_at_colon [OF colon] have split: "url1 = pre @ CHR '':'' # after CHR '':'' url1"
      by (simp add: pre_def)
    have nohash: "\<forall>c \<in> set (pre @ [CHR '':'']). c \<noteq> CHR ''#''"
      using sc by (auto simp: list_all_iff dest: hash_not_scheme_char)
    have "url1' = takeWhile (\<lambda>x. x \<noteq> CHR ''#'') ((pre @ [CHR '':'']) @ after CHR '':'' url1)"
      using split by (simp add: u1 before_def)
    also have "\<dots> = (pre @ [CHR '':'']) @ takeWhile (\<lambda>x. x \<noteq> CHR ''#'') (after CHR '':'' url1)"
      by (rule takeWhile_append2) (use nohash in auto)
    finally have split': "url1' = pre @ CHR '':'' # before CHR ''#'' (after CHR '':'' url1)"
      by (simp add: before_def)
    have nocolon: "CHR '':'' \<notin> set pre"
      using sc by (auto simp: list_all_iff dest: scheme_char_not_colon)
    have p': "pre' = pre" unfolding pre'_def
      by (subst split') (rule before_append [OF nocolon])
    have a': "after CHR '':'' url1' = before CHR ''#'' (after CHR '':'' url1)"
      by (subst split') (rule after_append [OF nocolon])
    have "hd url1 = hd pre" by (subst split) (simp add: ne)
    moreover have "hd url1' = hd pre" by (subst split') (simp add: ne)
    ultimately have h': "hd url1' = hd url1" by simp
    have c': "CHR '':'' \<in> set url1'" by (subst split') simp
    have "found'" unfolding found'_def p' h' using c' ne al sc by simp
    with True a' show ?thesis by (simp add: url2'_def url2_def)
  next
    case False
    have "\<not> found'"
    proof
      assume f: "found'"
      then have colon: "CHR '':'' \<in> set url1'" and ne: "pre' \<noteq> []" and al: "ascii_alpha (hd url1')"
        and sc: "list_all scheme_char pre'" by (simp_all add: found'_def)
      from split_at_colon [OF colon] have split': "url1' = pre' @ CHR '':'' # after CHR '':'' url1'"
        by (simp add: pre'_def)
      have "url1 = url1' @ dropWhile (\<lambda>x. x \<noteq> CHR ''#'') url1"
        by (simp add: u1 before_def)
      with split' have split: "url1 = pre' @ CHR '':'' # (after CHR '':'' url1' @ dropWhile (\<lambda>x. x \<noteq> CHR ''#'') url1)"
        by (metis append_Cons append_assoc)
      have nocolon: "CHR '':'' \<notin> set pre'"
        using sc by (auto simp: list_all_iff dest: scheme_char_not_colon)
      have p: "pre = pre'" unfolding pre_def
        by (subst split) (rule before_append [OF nocolon])
      have "hd url1 = hd pre'" by (subst split) (simp add: ne)
      moreover have "hd url1' = hd pre'" by (subst split') (simp add: ne)
      ultimately have h: "hd url1 = hd url1'" by simp
      have c: "CHR '':'' \<in> set url1" by (subst split) simp
      have found unfolding found_def p h using c ne al sc by simp
      with False show False by simp
    qed
    with False show ?thesis by (simp add: url2'_def url2_def u1)
  qed
  show ?thesis
    unfolding r r' u2 by (simp add: take2_before_hash splitnetloc_before_hash)
qed

lemma urlparse_before_hash:
  assumes "urlparse y = Inr p" and "urlparse (before CHR ''#'' y) = Inr p'"
  shows "netloc p' = netloc p"
  using urlparse_split [OF assms(1)] urlparse_split [OF assms(2)]
  by (auto dest: urlsplit_before_hash)






section \<open>Claims about \<open>normalize_url\<close>\<close>

text \<open>
  Claim C3: \<open>normalize_url\<close> is idempotent, in particular through the parsing, filtering
  and joining of the query string. The code is not: \<open>parse_qsl\<close> decodes the percent
  escapes of keys and values, and the pairs are joined again without being encoded, so
  a second pass reads another query (\<open>%2541\<close> gives \<open>%41\<close>, which gives \<open>A\<close>; an
  escaped \<open>&utm_x=1\<close> inside a value becomes a tracking pair of its own and is dropped).
  The path rule breaks it as well: \<open>//\<close> is stripped to the empty path, which the next
  pass turns into \<open>/\<close>. Both copies of the function behave so.
\<close>

theorem normalize_url_not_idempotent:
  "normalize_url ''http://x.com/?a=%2541'' None = Some ''http://x.com/?a=%41''
   \<and> normalize_url ''http://x.com/?a=%41'' None = Some ''http://x.com/?a=A''
   \<and> normalize_url ''http://x.com/?a=%26utm_x%3D1'' None = Some ''http://x.com/?a=&utm_x=1''
   \<and> normalize_url ''http://x.com/?a=&utm_x=1'' None = Some ''http://x.com/?a=''
   \<and> normalize_url ''http://x.com//'' None = Some ''http://x.com''
   \<and> normalize_url ''http://x.com'' None = Some ''http://x.com/''
   \<and> ai_normalize_url ''http://x.com/?a=%2541'' None = Inr (Some ''http://x.com/?a=%41'')
   \<and> ai_normalize_url ''http://x.com/?a=%41'' None = Inr (Some ''http://x.com/?a=A'')"
  by code_simp

text \<open>
  Claim C4: \<open>normalize_url\<close> returns \<open>None\<close> whenever the resolved URL has no host, in
  each crawler's copy. The copy of python_web_crawler_products.py tests the netloc and
  does; the copy of ai_crawler.py has no such test and returns a URL without a host,
  with and without a base.
\<close>

theorem ai_normalize_url_keeps_empty_host:
  "ai_normalize_url ''/foo'' None = Inr (Some ''http:///foo'')
   \<and> normalize_url ''/foo'' None = None
   \<and> ai_normalize_url ''mailto:a@b.c'' (Some ''http://x.com/'') = Inr (Some ''mailto:a@b.c'')
   \<and> normalize_url ''mailto:a@b.c'' (Some ''http://x.com/'') = None"
  by code_simp

lemma no_host_examples:
  "urlparse ''/foo'' = Inr \<lparr>scheme = [], netloc = [], path = ''/foo'', params = [],
                             query = [], fragment = []\<rparr>
   \<and> urljoin ''http://x.com/'' ''mailto:a@b.c'' = Inr ''mailto:a@b.c''
   \<and> urlparse ''mailto:a@b.c'' = Inr \<lparr>scheme = ''mailto'', netloc = [], path = ''a@b.c'',
                                       params = [], query = [], fragment = []\<rparr>"
  by code_simp

lemma normalize_url_None_without_host:
  assumes "resolve u base = Inr u1" and "urlparse (before CHR ''#'' u1) = Inr parsed"
      and "netloc parsed = []"
  shows "normalize_url u base = None"
  using assms by (simp add: normalize_url_def lower_def)



text \<open>
  For a URL made of a scheme, a host and a path only, the parsed path is the path as
  written.
\<close>

lemma normalize_url_plain:
  assumes "plain_scheme s" and "plain_host n" and "plain_path p"
      and "p = [] \<or> p = ''/'' \<or> \<not> only_slashes p"
  shows "normalize_url (s @ ''://'' @ n @ p) None
           = Some (lower s @ ''://'' @ lower n
                   @ (if p = [] \<or> p = ''/'' then ''/'' else rstrip CHR ''/'' p))
         \<and> ai_normalize_url (s @ ''://'' @ n @ p) None
           = Inr (Some (lower s @ ''://'' @ lower n
                   @ (if p = [] \<or> p = ''/'' then ''/'' else rstrip CHR ''/'' p)))"
proof -
  let ?u = "s @ ''://'' @ n @ p"
  have s: "s \<noteq> []" "list_all scheme_char s" using assms(1) by (auto simp: plain_scheme_def)
  have n: "n \<noteq> []" "CHR ''#'' \<notin> set n"
    using assms(2) by (auto simp: plain_host_def list_all_iff netloc_delim_def)
  have p: "CHR ''#'' \<notin> set p" "p = [] \<or> hd p = CHR ''/''"
    using assms(3) by (auto simp: plain_path_def list_all_iff)
  have "CHR ''#'' \<notin> set s"
    using s(2) by (auto simp: list_all_iff scheme_char_code char_eq_code [of "CHR ''#''"] simp del: of_char_eq_iff)
  with n p have "CHR ''#'' \<notin> set ?u" by simp
  then have frag: "before CHR ''#'' ?u = ?u" by (rule before_none)
  have parse: "urlparse ?u = Inr \<lparr>scheme = lower s, netloc = n, path = p, params = [], query = [], fragment = []\<rparr>"
    using assms(1-3) by (rule urlparse_plain)
  have nz: "normalized \<lparr>scheme = lower s, netloc = n, path = p, params = [], query = [], fragment = []\<rparr>
              = lower s @ ''://'' @ lower n @ norm_path p"
    using s(1) n(1) norm_path_hd [OF p(2)]
    by (simp add: normalized_def lower_eq_Nil lower_idem norm_query_empty normalized_with_host)
  have ne: "(?u = []) = False" using s(1) by simp
  have res: "resolve ?u None = Inr ?u" by (simp add: resolve_def)
  let ?P = "\<lparr>scheme = lower s, netloc = n, path = p, params = [], query = [], fragment = []\<rparr>"
  have "normalize_url ?u None = (if lower (netloc ?P) = [] then None else Some (normalized ?P))"
    by (simp only: normalize_url_def ne res frag parse if_False sum.case)
  moreover have "ai_normalize_url ?u None = Inr (Some (normalized ?P))"
    by (simp only: ai_normalize_url_def ne res frag parse if_False sum.case)
  ultimately show ?thesis
    using n(1) by (simp add: nz lower_eq_Nil norm_path_eq)
qed



section \<open>Sitemap resolution: claim C9\<close>

text \<open>
  \<open>parse_sitemap\<close> keeps the set \<open>seen\<close>. It never requests a sitemap twice, whatever
  the depth it is followed to and whether it returns or not; and on a finite set of
  sitemaps that holds the start and every sitemap a document of the set lists, it
  returns as soon as the depth exceeds the number of sitemaps not yet seen.
\<close>

lemma extend_each_preserves:
  assumes step: "\<And>loc st r st'. P st \<Longrightarrow> rec loc st = (r, st') \<Longrightarrow> P st'"
  shows "P st \<Longrightarrow> extend_each rec locs urls st = (r, st') \<Longrightarrow> P st'"
proof (induction locs arbitrary: urls st)
  case Nil
  then show ?case by simp
next
  case (Cons loc locs)
  obtain r1 st1 where c: "rec loc st = (r1, st1)" by (cases "rec loc st")
  with Cons.prems(1) have p1: "P st1" by (rule step)
  show ?case
  proof (cases r1)
    case None
    with c Cons.prems(2) p1 show ?thesis by simp
  next
    case (Some found)
    with c Cons.prems(2) have "extend_each rec locs (urls @ found) st1 = (r, st')" by simp
    with p1 show ?thesis by (rule Cons.IH)
  qed
qed

lemma parse_sitemap_requests_once:
  "distinct (snd st) \<and> set (snd st) \<subseteq> fst st \<Longrightarrow> parse_sitemap d web u st = (r, st')
     \<Longrightarrow> distinct (snd st') \<and> set (snd st') \<subseteq> fst st'"
proof (induction d arbitrary: u st r st')
  case 0
  then show ?case by simp
next
  case (Suc d)
  show ?case
  proof (cases "u \<in> fst st")
    case True
    with Suc.prems show ?thesis by simp
  next
    case False
    let ?st1 = "(insert u (fst st), snd st @ [u])"
    from False Suc.prems(1) have ok1: "distinct (snd ?st1) \<and> set (snd ?st1) \<subseteq> fst ?st1" by auto
    show ?thesis
    proof (cases "web u")
      case None
      with False Suc.prems(2) ok1 show ?thesis by (auto simp: Let_def)
    next
      case (Some doc)
      with False Suc.prems(2)
      have "extend_each (parse_sitemap d web) (sm_locs ''sitemap'' doc) (sm_locs ''url'' doc) ?st1 = (r, st')"
        by (simp add: Let_def)
      with ok1 show ?thesis
        by (rule extend_each_preserves [where P = "\<lambda>st. distinct (snd st) \<and> set (snd st) \<subseteq> fst st", rotated 1])
           (rule Suc.IH)
    qed
  qed
qed

lemma extend_each_returns:
  assumes fin: "finite U"
      and rec: "\<And>loc st. loc \<in> U \<Longrightarrow> card (U - fst st) < d
                  \<Longrightarrow> \<exists>found st'. rec loc st = (Some found, st') \<and> fst st \<subseteq> fst st'"
  shows "set locs \<subseteq> U \<Longrightarrow> card (U - fst st) < d
           \<Longrightarrow> \<exists>found st'. extend_each rec locs urls st = (Some found, st') \<and> fst st \<subseteq> fst st'"
proof (induction locs arbitrary: urls st)
  case Nil
  then show ?case by simp
next
  case (Cons loc locs)
  from Cons.prems obtain found st1 where c: "rec loc st = (Some found, st1)" and sub: "fst st \<subseteq> fst st1"
    using rec [of loc st] by auto
  from sub have "U - fst st1 \<subseteq> U - fst st" by auto
  with fin have "card (U - fst st1) \<le> card (U - fst st)" by (simp add: card_mono)
  with Cons.prems(2) have "card (U - fst st1) < d" by simp
  with Cons.prems(1) obtain found' st' where
    "extend_each rec locs (urls @ found) st1 = (Some found', st')" and "fst st1 \<subseteq> fst st'"
    using Cons.IH [of st1 "urls @ found"] by auto
  with c sub show ?case by auto
qed

lemma parse_sitemap_returns:
  assumes fin: "finite U"
      and closed: "\<And>u doc. web u = Some doc \<Longrightarrow> set (sm_locs ''sitemap'' doc) \<subseteq> U"
  shows "u \<in> U \<Longrightarrow> card (U - fst st) < d
           \<Longrightarrow> \<exists>urls st'. parse_sitemap d web u st = (Some urls, st') \<and> fst st \<subseteq> fst st'"
proof (induction d arbitrary: u st)
  case 0
  then show ?case by simp
next
  case (Suc d)
  show ?case
  proof (cases "u \<in> fst st")
    case True
    then show ?thesis by simp
  next
    case False
    let ?st1 = "(insert u (fst st), snd st @ [u])"
    from False Suc.prems(1) have "U - fst ?st1 \<subset> U - fst st" by auto
    with fin have "card (U - fst ?st1) < card (U - fst st)" by (simp add: psubset_card_mono)
    with Suc.prems(2) have less: "card (U - fst ?st1) < d" by simp
    show ?thesis
    proof (cases "web u")
      case None
      with False show ?thesis by (auto simp: Let_def)
    next
      case (Some doc)
      then have locs: "set (sm_locs ''sitemap'' doc) \<subseteq> U" by (rule closed)
      have "\<exists>found st'.
          extend_each (parse_sitemap d web) (sm_locs ''sitemap'' doc) (sm_locs ''url'' doc) ?st1
            = (Some found, st') \<and> fst ?st1 \<subseteq> fst st'"
      proof (rule extend_each_returns [OF fin])
        show "set (sm_locs ''sitemap'' doc) \<subseteq> U" by (rule locs)
        show "card (U - fst ?st1) < d" by (rule less)
        show "\<exists>found st'. parse_sitemap d web loc st = (Some found, st') \<and> fst st \<subseteq> fst st'"
          if "loc \<in> U" "card (U - fst st) < d" for loc st
          using that by (rule Suc.IH)
      qed
      then obtain found st' where
        "extend_each (parse_sitemap d web) (sm_locs ''sitemap'' doc) (sm_locs ''url'' doc) ?st1
           = (Some found, st')" and "fst ?st1 \<subseteq> fst st'"
        by blast
      with False Some show ?thesis by (auto simp: Let_def)
    qed
  qed
qed


lemma parse_sitemap_from_scratch:
  "parse_sitemap d web u ({}, []) = (r, (seen, requested)) \<Longrightarrow> distinct requested"
  using parse_sitemap_requests_once [of "({}, [])" d web u r "(seen, requested)"] by simp

text \<open>
  Claim C9: sitemap resolution terminates on every sitemap graph and fetches each sitemap
  URL at most once. \<open>fetch_sitemap_urls\<close>, the resolver of robust_crawl, keeps no set of
  the sitemaps seen. On a sitemap index that lists itself it requests the index again at
  every level, as many times as the interpreter allows nested calls, and only the
  interpreter's bound ends the recursion; \<open>parse_sitemap\<close> requests it once and returns.
\<close>

theorem fetch_sitemap_urls_requests_again:
  "fetch_sitemap_urls d looping_site ''http://x.com/sitemap.xml'' requested
     = (Some (if d = 0 then [] else [''http://x.com/sitemap.xml'']),
        requested @ replicate d ''http://x.com/sitemap.xml'')"
proof (induction d arbitrary: requested)
  case 0
  then show ?case by simp
next
  case (Suc d)
  have idx: "endswith (lower (el_tag (sitemapindex [''http://x.com/sitemap.xml''])))
               ''sitemapindex''"
    by code_simp
  have locs: "first_locs ''sitemap'' (sitemapindex [''http://x.com/sitemap.xml''])
                = [''http://x.com/sitemap.xml'']"
    by code_simp
  have fallback: "all_locs (sitemapindex [''http://x.com/sitemap.xml''])
                = [''http://x.com/sitemap.xml'']"
    by code_simp
  have web: "looping_site ''http://x.com/sitemap.xml''
               = Some (sitemapindex [''http://x.com/sitemap.xml''])"
    by (simp add: looping_site_def)
  show ?case
    by (simp add: web idx locs fallback Suc replicate_append_same)
qed

lemma fetch_sitemap_urls_returns:
  "\<exists>urls requested'. fetch_sitemap_urls d web u requested = (Some urls, requested')"
proof (induction d arbitrary: u requested)
  case 0
  then show ?case by simp
next
  case (Suc d)
  have loop: "\<exists>urls st'. extend_each (fetch_sitemap_urls d web) locs acc st = (Some urls, st')"
    for locs acc st
  proof (induction locs arbitrary: acc st)
    case Nil
    then show ?case by simp
  next
    case (Cons loc locs)
    from Suc obtain found st1 where "fetch_sitemap_urls d web loc st = (Some found, st1)" by blast
    with Cons [of "acc @ found" st1] show ?case by simp
  qed
  show ?case
  proof (cases "web u")
    case None
    then show ?thesis by (simp add: Let_def)
  next
    case (Some doc)
    show ?thesis
    proof (cases "endswith (lower (el_tag doc)) ''sitemapindex''")
      case True
      from loop obtain urls st' where
        "extend_each (fetch_sitemap_urls d web) (first_locs ''sitemap'' doc) []
           (requested @ [u]) = (Some urls, st')" by blast
      with Some True show ?thesis by (simp add: Let_def)
    next
      case False
      with Some show ?thesis by (simp add: Let_def)
    qed
  qed
qed

lemma parse_sitemap_on_looping_site:
  "parse_sitemap 2 looping_site ''http://x.com/sitemap.xml'' ({}, [])
     = (Some [], ({''http://x.com/sitemap.xml''}, [''http://x.com/sitemap.xml'']))"
  by code_simp

section \<open>The keyword crawler's delay: claim C7\<close>

lemma kc_delay_init:
  "kc_delay (keyword_crawler_init m d n (Some c)) = max d c"
  by (simp add: keyword_crawler_init_def)

lemma submission_pause_init:
  "submission_pause (keyword_crawler_init m d n (Some c)) = max d c / real_of_int (max 1 n)"
  by (simp add: keyword_crawler_init_def submission_pause_def)

lemma submission_pause_one_worker:
  "n \<le> 1 \<Longrightarrow> submission_pause (keyword_crawler_init m d n (Some c)) = max d c"
  by (simp add: submission_pause_init max_def)

lemma submission_pause_shorter:
  assumes "1 < n" and "0 < max d c"
  shows "submission_pause (keyword_crawler_init m d n (Some c)) < max d c"
proof -
  from assms(1) have k: "1 < real_of_int (max 1 n)" by simp
  have "max d c / real_of_int (max 1 n) < max d c / 1"
    using k assms(2) by (intro divide_strict_left_mono) simp_all
  then show ?thesis by (simp add: submission_pause_init)
qed

text \<open>
  Claim C7: with a crawl-delay in robots.txt, at least \<open>max(d, c)\<close> seconds separate one
  request from the next. \<open>__init__\<close> does store \<open>max(d, c)\<close> as the delay, but \<open>run\<close>
  sleeps \<open>self.delay / max(1, self.concurrency)\<close> between two submissions: with a
  delay of 1, a crawl-delay of 2 and the default of 5 workers, two fifths of a second.
\<close>

theorem keyword_crawler_pause_divided:
  "kc_delay (keyword_crawler_init 1000 1 5 (Some 2)) = max 1 2
   \<and> submission_pause (keyword_crawler_init 1000 1 5 (Some 2)) = 2 / 5
   \<and> submission_pause (keyword_crawler_init 1000 1 5 (Some 2)) < max 1 2"
  by (simp add: keyword_crawler_init_def submission_pause_def)

lemma keyword_crawler_run_trace:
  "kc_run (keyword_crawler_init 1000 1 5 (Some 2)) ''http'' ''x.com'' (\<lambda>u. True)
     ([''http://x.com/a''] # [] # [])
     \<lparr>to_visit = [''http://x.com''], kc_visited = {}, kc_trace = []\<rparr>
   = Inr \<lparr>to_visit = [], kc_visited = {''http://x.com/a'', ''http://x.com''},
          kc_trace = [Submit ''http://x.com'', Sleep (2 / 5),
                      Submit ''http://x.com/a'', Sleep (2 / 5)]\<rparr>"
  by code_simp

section \<open>The seeding returns\<close>

text \<open>
  \<open>fetch_sitemap_urls\<close> returns on every site, so the seeding does, and every run
  reaches its workers or ends with an exception before them.
\<close>

lemma load_sitemaps_returns: "\<exists>r. load_sitemaps env ss urls requested = Some r"
proof (induction ss arbitrary: urls requested)
  case Nil
  then show ?case by simp
next
  case (Cons s ss)
  from fetch_sitemap_urls_returns [of "depth env" "sitemaps env" s requested]
  obtain found requested' where
    "fetch_sitemap_urls (depth env) (sitemaps env) s requested = (Some found, requested')"
    by blast
  with Cons [of "urls @ filter (\<lambda>nu. nu \<noteq> []) (List.map_filter (\<lambda>u. normalize_url u None) found)"
                requested']
  show ?case by simp
qed

lemma seed_returns: "\<exists>r. seed c env root_url = Some r"
proof (cases "variant c = Products \<and> use_sitemaps c")
  case True
  define ss where "ss = (if filter (probe_ok env) (sitemap_candidates root_url) = []
                         then remdups (sitemap_links (start_url c) (start_page env))
                         else filter (probe_ok env) (sitemap_candidates root_url))"
  from load_sitemaps_returns [of env ss "[]" "sitemap_candidates root_url"]
  obtain urls requested where
    "load_sitemaps env ss [] (sitemap_candidates root_url) = Some (urls, requested)" by auto
  with True show ?thesis by (simp add: seed_def Let_def ss_def)
next
  case False
  then show ?thesis by (auto simp: seed_def)
qed

lemma crawl_run_returns: "crawl_run c env evs \<noteq> None"
proof -
  have "crawl_init c env \<noteq> None"
  proof (cases "urlparse (start_url c)")
    case (Inl e)
    then show ?thesis by (simp add: crawl_init_def)
  next
    case (Inr parsed)
    from seed_returns [of c env "base_root parsed"] obtain r where
      "seed c env (base_root parsed) = Some r" by blast
    with Inr show ?thesis
      by (auto simp: crawl_init_def split: sum.splits prod.splits)
  qed
  then show ?thesis by (auto simp: crawl_run_def split: option.splits sum.splits)
qed

section \<open>The steps of a worker\<close>

text \<open>
  What one pass from the loop's test to the first \<open>await\<close> does: it takes URLs from
  the head of the frontier, and either it stops at a URL of the crawl's host that the
  robots policy allows, whose fetch it starts, or it ends the worker.
\<close>

lemma dequeue_effect:
  assumes "dequeue c s = (st, s')"
  shows "same_logs s s' \<and> discovered s' = discovered s \<and> results s' = results s
         \<and> workers s' = workers s
         \<and> ((\<exists>u pre p. st = AwaitPlain u \<and> q s = pre @ Some u # q s'
                \<and> plain_fetches s' = plain_fetches s @ [u] \<and> \<not> robots_block c u
                \<and> urlparse u = Inr p \<and> netloc p = base_host s)
             \<or> ((st = Finished \<or> (\<exists>e. st = Crashed e))
                \<and> (\<exists>pre. q s = pre @ q s') \<and> plain_fetches s' = plain_fetches s))"
  using assms
proof (induction c s arbitrary: st s' rule: dequeue.induct)
  case (1 c s)
  note eq = "1.prems" [unfolded dequeue.simps [of c s]]
  show ?case
  proof (cases "q s")
    case Nil
    with eq show ?thesis by (auto simp: same_logs_def)
  next
    case (Cons head rest)
    note qs = this
    show ?thesis
    proof (cases "int (card (visited s)) < max_pages c")
      case False
      with eq qs show ?thesis by (auto simp: same_logs_def)
    next
      case budget: True
      show ?thesis
      proof (cases head)
        case None
        with eq qs budget have "dequeue c (s\<lparr>q := rest\<rparr>) = (st, s')" by simp
        from "1.IH"(1) [OF qs budget None this] qs
        show ?thesis by (auto simp: same_logs_def intro: exI [of _ "head # _"])
      next
        case (Some url)
        note hd = this
        show ?thesis
        proof (cases "url = []")
          case True
          with eq qs budget hd have "dequeue c (s\<lparr>q := rest\<rparr>) = (st, s')" by simp
          from "1.IH"(2) [OF qs budget hd True this] qs
          show ?thesis by (auto simp: same_logs_def intro: exI [of _ "head # _"])
        next
          case nonempty: False
          show ?thesis
          proof (cases "url \<in> visited s")
            case True
            with eq qs budget hd nonempty have "dequeue c (s\<lparr>q := rest\<rparr>) = (st, s')" by simp
            from "1.IH"(3) [OF qs budget hd nonempty True this] qs
            show ?thesis by (auto simp: same_logs_def intro: exI [of _ "head # _"])
          next
            case fresh: False
            show ?thesis
            proof (cases "urlparse url")
              case (Inl e)
              with eq qs budget hd nonempty fresh show ?thesis
                by (auto simp: same_logs_def intro: exI [of _ "[head]"])
            next
              case (Inr parsed)
              note parse = this
              show ?thesis
              proof (cases "netloc parsed \<noteq> base_host s")
                case True
                with eq qs budget hd nonempty fresh parse
                have "dequeue c (s\<lparr>q := rest, visited := insert url (visited s)\<rparr>) = (st, s')"
                  by simp
                from "1.IH"(4) [OF qs budget hd nonempty fresh parse True this] qs
                show ?thesis by (auto simp: same_logs_def intro: exI [of _ "head # _"])
              next
                case same: False
                show ?thesis
                proof (cases "robots_block c url")
                  case True
                  with eq qs budget hd nonempty fresh parse same
                  have "dequeue c (s\<lparr>q := rest, visited := insert url (visited s)\<rparr>) = (st, s')"
                    by simp
                  from "1.IH"(5) [OF qs budget hd nonempty fresh parse same True this] qs
                  show ?thesis by (auto simp: same_logs_def intro: exI [of _ "head # _"])
                next
                  case False
                  with eq qs budget hd nonempty fresh parse same show ?thesis
                    by (auto simp: same_logs_def intro: exI [of _ "[]"])
                qed
              qed
            qed
          qed
        qed
      qed
    qed
  qed
qed


lemma enqueue_effect:
  assumes "enqueue c ls s = (r, s')"
  shows "same_logs s s' \<and> plain_fetches s' = plain_fetches s \<and> workers s' = workers s
         \<and> (\<exists>new. q s' = q s @ map Some new \<and> distinct new
                \<and> Some ` set new \<inter> discovered s = {}
                \<and> discovered s' = discovered s \<union> Some ` set new)"
  using assms
proof (induction ls arbitrary: s)
  case Nil
  then show ?case by (auto simp: same_logs_def intro: exI [of _ "[]"])
next
  case (Cons l ls)
  show ?case
  proof (cases "l = [] \<or> skipped_extension (variant c) l")
    case True
    with Cons.prems have "enqueue c ls s = (r, s')" by (auto split: if_splits)
    then show ?thesis by (rule Cons.IH)
  next
    case keep: False
    show ?thesis
    proof (cases "urlparse l")
      case (Inl e)
      with keep Cons.prems show ?thesis by (auto simp: same_logs_def intro: exI [of _ "[]"])
    next
      case (Inr parsed)
      show ?thesis
      proof (cases "netloc parsed = base_host s \<and> Some l \<notin> discovered s")
        case False
        with keep Inr Cons.prems have "enqueue c ls s = (r, s')" by auto
        then show ?thesis by (rule Cons.IH)
      next
        case True
        define s1 where "s1 = s\<lparr>discovered := insert (Some l) (discovered s), q := q s @ [Some l]\<rparr>"
        from True keep Inr Cons.prems have "enqueue c ls s1 = (r, s')" by (auto simp: s1_def)
        from Cons.IH [OF this] obtain new where
          new: "same_logs s1 s'" "plain_fetches s' = plain_fetches s1" "workers s' = workers s1"
            "q s' = q s1 @ map Some new" "distinct new" "Some ` set new \<inter> discovered s1 = {}"
            "discovered s' = discovered s1 \<union> Some ` set new"
          by blast
        have "q s' = q s @ map Some (l # new)" using new(4) by (simp add: s1_def)
        moreover have "distinct (l # new)" using new(5,6) by (auto simp: s1_def)
        moreover have "Some ` set (l # new) \<inter> discovered s = {}"
          using new(6) True by (auto simp: s1_def)
        moreover have "discovered s' = discovered s \<union> Some ` set (l # new)"
          using new(7) by (auto simp: s1_def)
        ultimately have "\<exists>new. q s' = q s @ map Some new \<and> distinct new
                \<and> Some ` set new \<inter> discovered s = {}
                \<and> discovered s' = discovered s \<union> Some ` set new"
          by blast
        then show ?thesis using new(1,2,3) by (simp add: same_logs_def s1_def)
      qed
    qed
  qed
qed

lemma process_effect:
  assumes "process c w url html raw used order s = s'"
  shows "s' = s
         \<or> (same_logs s s' \<and> plain_fetches s' = plain_fetches s
            \<and> (\<exists>st. (\<forall>u. st \<noteq> AwaitPlain u) \<and> workers s' = (workers s)[w := st])
            \<and> (\<exists>new. q s' = q s @ map Some new \<and> distinct new
                  \<and> Some ` set new \<inter> discovered s = {}
                  \<and> discovered s' = discovered s \<union> Some ` set new))"
proof -
  define s1 where "s1 = s\<lparr>visited := insert url (visited s)\<rparr>"
  have idle: "\<And>st. (\<forall>u. st \<noteq> AwaitPlain u) \<Longrightarrow> s' = set_worker w st s1 \<Longrightarrow> ?thesis"
    by (rule disjI2) (auto simp: set_worker_def s1_def same_logs_def intro: exI [of _ "[]"])
  show ?thesis
  proof (cases html)
    case None
    with assms show ?thesis by (intro idle [of AtLoop]) (auto simp: process_def s1_def)
  next
    case (Some doc)
    show ?thesis
    proof (cases "html_len doc = 0")
      case True
      with Some assms show ?thesis by (intro idle [of AtLoop]) (auto simp: process_def s1_def)
    next
      case len: False
      show ?thesis
      proof (cases "extract_links_from_html (variant c) url doc")
        case (Inl e)
        with Some len assms show ?thesis
          by (intro idle [of "Crashed e"]) (auto simp: process_def s1_def)
      next
        case (Inr extracted)
        define links where "links = merge_candidates (variant c) url raw extracted"
        show ?thesis
        proof (cases "set order = links \<and> distinct order")
          case False
          then have "\<not> (set order = merge_candidates (variant c) url raw extracted \<and> distinct order)"
            by (simp add: links_def)
          with Some len Inr assms have "s' = s" by (simp add: process_def Let_def)
          then show ?thesis by simp
        next
          case True
          define s2 where "s2 = s1\<lparr>results := results s1 @ [make_result (variant c) url doc used links]\<rparr>"
          obtain r s3 where enq: "enqueue c order s2 = (r, s3)" by (cases "enqueue c order s2")
          from enqueue_effect [OF enq] obtain new where
            new: "same_logs s2 s3" "plain_fetches s3 = plain_fetches s2" "workers s3 = workers s2"
              "q s3 = q s2 @ map Some new" "distinct new" "Some ` set new \<inter> discovered s2 = {}"
              "discovered s3 = discovered s2 \<union> Some ` set new"
            by blast
          from True have ord: "set order = merge_candidates (variant c) url raw extracted \<and> distinct order"
            by (simp add: links_def)
          have "s' = set_worker w (case r of None \<Rightarrow> AtLoop | Some e \<Rightarrow> Crashed e) s3"
            using Some len Inr ord assms enq [unfolded s2_def s1_def links_def]
            by (simp add: process_def Let_def split: option.splits)
          then show ?thesis using new
            by (intro disjI2)
               (auto simp: set_worker_def s1_def s2_def same_logs_def split: option.splits)
        qed
      qed
    qed
  qed
qed

text \<open>
  The relation between the frontier and the fetches holds when the workers start, and
  every step of a worker keeps it.
\<close>

lemma nth_update_cases:
  "ws[w := st] ! i = x \<Longrightarrow> i < length ws \<Longrightarrow> (i = w \<and> x = st) \<or> ws ! i = x"
  by (cases "i = w") auto

lemma awaiting_okD:
  assumes "awaiting_ok P R ws" "i < length ws" "ws ! i = AwaitPlain u"
  shows "u \<in> set P" "u \<notin> set R" "j < length ws \<Longrightarrow> ws ! j = AwaitPlain u \<Longrightarrow> j = i"
  using assms unfolding awaiting_ok_def by blast+

lemma awaiting_okI:
  assumes "\<And>i u. i < length ws \<Longrightarrow> ws ! i = AwaitPlain u \<Longrightarrow> u \<in> set P \<and> u \<notin> set R"
    and "\<And>i j u. i < length ws \<Longrightarrow> j < length ws \<Longrightarrow> ws ! i = AwaitPlain u
           \<Longrightarrow> ws ! j = AwaitPlain u \<Longrightarrow> j = i"
  shows "awaiting_ok P R ws"
  unfolding awaiting_ok_def using assms by blast

lemma awaiting_idle:
  assumes ok: "awaiting_ok P R ws" and st: "\<forall>u. st \<noteq> AwaitPlain u"
  shows "awaiting_ok P R (ws[w := st])"
proof (rule awaiting_okI)
  fix i u assume "i < length (ws[w := st])" "ws[w := st] ! i = AwaitPlain u"
  then have "i < length ws" "ws ! i = AwaitPlain u"
    using st by (auto dest: nth_update_cases)
  then show "u \<in> set P \<and> u \<notin> set R" using awaiting_okD(1,2) [OF ok] by blast
next
  fix i j u
  assume "i < length (ws[w := st])" "j < length (ws[w := st])"
    "ws[w := st] ! i = AwaitPlain u" "ws[w := st] ! j = AwaitPlain u"
  then have "i < length ws" "ws ! i = AwaitPlain u" "j < length ws" "ws ! j = AwaitPlain u"
    using st by (auto dest: nth_update_cases)
  then show "j = i" using awaiting_okD(3) [OF ok] by blast
qed

lemma awaiting_new:
  assumes ok: "awaiting_ok P R ws" and fresh: "u \<notin> set P" and sub: "set R \<subseteq> set P"
  shows "awaiting_ok (P @ [u]) R (ws[w := AwaitPlain u])"
proof (rule awaiting_okI)
  fix i v assume i: "i < length (ws[w := AwaitPlain u])" "ws[w := AwaitPlain u] ! i = AwaitPlain v"
  show "v \<in> set (P @ [u]) \<and> v \<notin> set R"
  proof (cases "i = w")
    case True
    with i have "v = u" by simp
    with fresh sub show ?thesis by auto
  next
    case False
    with i have "i < length ws" "ws ! i = AwaitPlain v" by simp_all
    then show ?thesis using awaiting_okD(1,2) [OF ok] by auto
  qed
next
  fix i j v
  assume i: "i < length (ws[w := AwaitPlain u])" "ws[w := AwaitPlain u] ! i = AwaitPlain v"
    and j: "j < length (ws[w := AwaitPlain u])" "ws[w := AwaitPlain u] ! j = AwaitPlain v"
  have old: "v \<noteq> u" if "k < length ws" "ws ! k = AwaitPlain v" for k
    using awaiting_okD(1) [OF ok that] fresh by auto
  show "j = i"
  proof (cases "i = w")
    case True
    with i have v: "v = u" by simp
    show ?thesis
    proof (cases "j = w")
      case False
      with j have "j < length ws" "ws ! j = AwaitPlain v" by simp_all
      with old v show ?thesis by blast
    qed (use True in simp)
  next
    case False
    with i have oi: "i < length ws" "ws ! i = AwaitPlain v" by simp_all
    show ?thesis
    proof (cases "j = w")
      case True
      with j have "v = u" by simp
      with old oi show ?thesis by blast
    next
      case False
      with j have "j < length ws" "ws ! j = AwaitPlain v" by simp_all
      with oi show ?thesis using awaiting_okD(3) [OF ok] by blast
    qed
  qed
qed

lemma awaiting_render:
  assumes ok: "awaiting_ok P R ws" and w: "w < length ws" "ws ! w = AwaitPlain u"
  shows "awaiting_ok P (R @ [u]) (ws[w := AwaitRender u h])"
proof (rule awaiting_okI)
  fix i v assume i: "i < length (ws[w := AwaitRender u h])"
    "ws[w := AwaitRender u h] ! i = AwaitPlain v"
  then have ne: "i \<noteq> w" using w(1) by auto
  with i have oi: "i < length ws" "ws ! i = AwaitPlain v" by simp_all
  have "v \<noteq> u" using awaiting_okD(3) [OF ok oi w(1)] w(2) ne by auto
  then show "v \<in> set P \<and> v \<notin> set (R @ [u])" using awaiting_okD(1,2) [OF ok oi] by auto
next
  fix i j v
  assume "i < length (ws[w := AwaitRender u h])" "j < length (ws[w := AwaitRender u h])"
    "ws[w := AwaitRender u h] ! i = AwaitPlain v" "ws[w := AwaitRender u h] ! j = AwaitPlain v"
  then have "i < length ws" "ws ! i = AwaitPlain v" "j < length ws" "ws ! j = AwaitPlain v"
    by (auto dest: nth_update_cases)
  then show "j = i" using awaiting_okD(3) [OF ok] by blast
qed

lemma awaiting_fresh:
  "awaiting_ok P R ws \<Longrightarrow> w < length ws \<Longrightarrow> ws ! w = AwaitPlain u \<Longrightarrow> u \<notin> set R \<and> u \<in> set P"
  unfolding awaiting_ok_def by auto

lemma fetch_once_process:
  assumes "fetch_once c s" shows "fetch_once c (process c w url html raw used order s)"
proof -
  define s' where "s' = process c w url html raw used order s"
  from process_effect [OF s'_def [symmetric]]
  show ?thesis unfolding s'_def [symmetric]
  proof
    assume "s' = s" with assms show "fetch_once c s'" by simp
  next
    assume "same_logs s s' \<and> plain_fetches s' = plain_fetches s
            \<and> (\<exists>st. (\<forall>u. st \<noteq> AwaitPlain u) \<and> workers s' = (workers s)[w := st])
            \<and> (\<exists>new. q s' = q s @ map Some new \<and> distinct new
                  \<and> Some ` set new \<inter> discovered s = {}
                  \<and> discovered s' = discovered s \<union> Some ` set new)"
    then obtain st new where
      e: "same_logs s s'" "plain_fetches s' = plain_fetches s"
         "\<forall>u. st \<noteq> AwaitPlain u" "workers s' = (workers s)[w := st]"
         "q s' = q s @ map Some new" "distinct new" "Some ` set new \<inter> discovered s = {}"
         "discovered s' = discovered s \<union> Some ` set new"
      by blast
    from assms have inv: "distinct (map Some (plain_fetches s) @ q s)"
      "set (q s) \<union> Some ` set (plain_fetches s) \<subseteq> discovered s"
      "distinct (render_fetches s)" "set (render_fetches s) \<subseteq> set (plain_fetches s)"
      "\<forall>u \<in> set (plain_fetches s). \<not> robots_block c u"
      "awaiting_ok (plain_fetches s) (render_fetches s) (workers s)"
      by (simp_all add: fetch_once_def)
    have r: "render_fetches s' = render_fetches s" using e(1) by (simp add: same_logs_def)
    have 1: "distinct (map Some (plain_fetches s') @ q s')"
      using inv(1,2) e(2,5,6,7) by (auto simp: distinct_map)
    have 2: "set (q s') \<union> Some ` set (plain_fetches s') \<subseteq> discovered s'"
      using inv(2) e(2,5,8) by auto
    have 6: "awaiting_ok (plain_fetches s') (render_fetches s') (workers s')"
      using awaiting_idle [OF inv(6) e(3)] by (simp add: e(2,4) r)
    show "fetch_once c s'"
      unfolding fetch_once_def using 1 2 6 inv(3,4,5) by (simp add: e(2) r)
  qed
qed

lemma fetch_once_step:
  assumes "fetch_once c s" shows "fetch_once c (step c ev s)"
proof -
  from assms have inv: "distinct (map Some (plain_fetches s) @ q s)"
    "set (q s) \<union> Some ` set (plain_fetches s) \<subseteq> discovered s"
    "distinct (render_fetches s)" "set (render_fetches s) \<subseteq> set (plain_fetches s)"
    "\<forall>u \<in> set (plain_fetches s). \<not> robots_block c u"
    "awaiting_ok (plain_fetches s) (render_fetches s) (workers s)"
    by (simp_all add: fetch_once_def)
  show ?thesis
  proof (cases ev)
    case (Wake w)
    show ?thesis
    proof (cases "w < length (workers s) \<and> workers s ! w = AtLoop")
      case False
      with Wake assms show ?thesis by (auto simp: step_def)
    next
      case True
      obtain st s1 where dq: "dequeue c s = (st, s1)" by (cases "dequeue c s")
      with True Wake have s': "step c ev s = set_worker w st s1" by (simp add: step_def)
      from dequeue_effect [OF dq] have
        same: "same_logs s s1" "discovered s1 = discovered s" "workers s1 = workers s"
        and alt: "(\<exists>u pre p. st = AwaitPlain u \<and> q s = pre @ Some u # q s1
                \<and> plain_fetches s1 = plain_fetches s @ [u] \<and> \<not> robots_block c u
                \<and> urlparse u = Inr p \<and> netloc p = base_host s)
             \<or> ((st = Finished \<or> (\<exists>e. st = Crashed e))
                \<and> (\<exists>pre. q s = pre @ q s1) \<and> plain_fetches s1 = plain_fetches s)"
        by simp_all
      have r: "render_fetches s1 = render_fetches s" using same(1) by (simp add: same_logs_def)
      from alt show ?thesis
      proof
        assume "\<exists>u pre p. st = AwaitPlain u \<and> q s = pre @ Some u # q s1
                \<and> plain_fetches s1 = plain_fetches s @ [u] \<and> \<not> robots_block c u
                \<and> urlparse u = Inr p \<and> netloc p = base_host s"
        then obtain u pre where
          a: "st = AwaitPlain u" "q s = pre @ Some u # q s1"
             "plain_fetches s1 = plain_fetches s @ [u]" "\<not> robots_block c u"
          by blast
        have fresh: "u \<notin> set (plain_fetches s)" using inv(1) a(2) by auto
        have 1: "distinct (map Some (plain_fetches s1) @ q s1)"
          using inv(1) a(2,3) by auto
        have 2: "set (q s1) \<union> Some ` set (plain_fetches s1) \<subseteq> discovered s1"
          using inv(2) a(2,3) same(2) by auto
        have 6: "awaiting_ok (plain_fetches s1) (render_fetches s1) ((workers s1)[w := st])"
          using awaiting_new [OF inv(6) fresh inv(4)] by (simp add: a(1,3) r same(3))
        show ?thesis
          unfolding s' fetch_once_def set_worker_def using 1 2 6 inv(3,4,5) a(3,4) r
          by auto
      next
        assume "(st = Finished \<or> (\<exists>e. st = Crashed e))
                \<and> (\<exists>pre. q s = pre @ q s1) \<and> plain_fetches s1 = plain_fetches s"
        then obtain pre where
          b: "\<forall>u. st \<noteq> AwaitPlain u" "q s = pre @ q s1" "plain_fetches s1 = plain_fetches s"
          by auto
        have 1: "distinct (map Some (plain_fetches s1) @ q s1)"
          using inv(1) b(2,3) by auto
        have 2: "set (q s1) \<union> Some ` set (plain_fetches s1) \<subseteq> discovered s1"
          using inv(2) b(2,3) same(2) by auto
        have 6: "awaiting_ok (plain_fetches s1) (render_fetches s1) ((workers s1)[w := st])"
          using awaiting_idle [OF inv(6) b(1)] by (simp add: b(3) r same(3))
        show ?thesis
          unfolding s' fetch_once_def set_worker_def using 1 2 6 inv(3,4,5) b(3) r
          by auto
      qed
    qed
  next
    case (PlainDone w html order)
    show ?thesis
    proof (cases "w < length (workers s)")
      case False
      with PlainDone assms show ?thesis by (simp add: step_def)
    next
      case len: True
      show ?thesis
      proof (cases "workers s ! w")
        case (AwaitPlain url)
        show ?thesis
        proof (cases "wants_render c html")
          case False
          with PlainDone len AwaitPlain show ?thesis
            by (simp add: step_def fetch_once_process [OF assms])
        next
          case True
          from awaiting_fresh [OF inv(6) len AwaitPlain]
          have fresh: "url \<notin> set (render_fetches s)" "url \<in> set (plain_fetches s)" by simp_all
          have 6: "awaiting_ok (plain_fetches s) (render_fetches s @ [url])
                     ((workers s)[w := AwaitRender url html])"
            by (rule awaiting_render [OF inv(6) len AwaitPlain])
          from True PlainDone len AwaitPlain
          have "step c ev s = set_worker w (AwaitRender url html)
                        (s\<lparr>render_fetches := render_fetches s @ [url]\<rparr>)"
            by (simp add: step_def)
          then show ?thesis
            unfolding fetch_once_def set_worker_def using inv(1,2,3,4,5) fresh 6 by auto
        qed
      qed (use PlainDone len assms in \<open>simp_all add: step_def\<close>)
    qed
  next
    case (RenderDone w content raw order)
    show ?thesis
    proof (cases "w < length (workers s)")
      case False
      with RenderDone assms show ?thesis by (simp add: step_def)
    next
      case len: True
      show ?thesis
        using RenderDone len assms
        by (cases "workers s ! w") (simp_all add: step_def fetch_once_process [OF assms])
    qed
  next
    case (RenderRaised w e)
    show ?thesis
    proof (cases "w < length (workers s) \<and> variant c = AI")
      case False
      with RenderRaised assms show ?thesis by (auto simp: step_def)
    next
      case True
      have 6: "awaiting_ok (plain_fetches s) (render_fetches s) ((workers s)[w := Crashed e])"
        by (rule awaiting_idle [OF inv(6)]) simp
      have "fetch_once c (set_worker w (Crashed e) s)"
        unfolding fetch_once_def set_worker_def using inv(1,2,3,4,5) 6 by auto
      with True RenderRaised assms show ?thesis
        by (cases "workers s ! w") (simp_all add: step_def)
    qed
  qed
qed

lemma fetch_once_exec: "fetch_once c s \<Longrightarrow> fetch_once c (exec c evs s)"
  unfolding exec_def by (induction evs arbitrary: s) (simp_all add: fetch_once_step)


lemma initial_queue_distinct:
  assumes "initial_queue xs = Inr queue"
  shows "distinct queue \<and> set queue \<subseteq> set xs"
proof (cases "None \<in> set xs")
  case True
  with assms have "queue = [None]" by (auto simp: initial_queue_def split: if_splits)
  with True show ?thesis by simp
next
  case False
  with assms have queue: "queue = map Some (sort (remdups (List.map_filter id xs)))"
    by (simp add: initial_queue_def)
  have "set (List.map_filter id xs) = {x. Some x \<in> set xs}"
    by (auto simp: List.map_filter_def intro: rev_image_eqI)
  then show ?thesis by (auto simp: queue distinct_map)
qed

lemma crawl_init_fetch_once:
  assumes "crawl_init c env = Some (Inr s)"
  shows "fetch_once c s"
proof -
  from assms obtain xs queue n where
    s: "initial_queue xs = Inr queue" "q s = queue" "discovered s = set xs"
       "plain_fetches s = []" "render_fetches s = []" "workers s = replicate n AtLoop"
    by (auto simp: crawl_init_def split: sum.splits option.splits prod.splits if_splits)
  from initial_queue_distinct [OF s(1)] have "distinct queue" "set queue \<subseteq> set xs" by simp_all
  moreover have "awaiting_ok [] [] (replicate n AtLoop)" by (simp add: awaiting_ok_def)
  ultimately show ?thesis by (simp add: fetch_once_def s)
qed

lemma crawl_run_fetch_once:
  assumes "crawl_run c env evs = Some (Inr s)"
  shows "fetch_once c s"
proof -
  from assms obtain s0 where "crawl_init c env = Some (Inr s0)" "s = exec c evs s0"
    by (auto simp: crawl_run_def split: option.splits sum.splits)
  then show ?thesis by (simp add: crawl_init_fetch_once fetch_once_exec)
qed

section \<open>The page budget: claim C1\<close>

text \<open>
  Claim C1: the number of URLs in the visited set never exceeds \<open>max_pages\<close>, at every
  concurrency level. A worker tests \<open>len(visited) < max_pages\<close> before it takes a URL
  and adds the URL to \<open>visited\<close> only after the \<open>await\<close> of its fetch. With a page
  budget of 1, two workers and a frontier seeded with the two pages of a sitemap, both
  workers pass the test while \<open>visited\<close> is empty, and both add their URL.
\<close>

theorem robust_crawl_exceeds_max_pages:
  "(case crawl_run small_crawl with_sitemap
           [Wake 0, Wake 1, PlainDone 0 (Some blank_page) [], PlainDone 1 (Some blank_page) []] of
      Some (Inr s) \<Rightarrow>
        visited s = {''http://x.com/'', ''http://x.com/a''} \<and> card (visited s) = 2
        \<and> max_pages small_crawl = 1
        \<and> plain_fetches s = [''http://x.com/'', ''http://x.com/a'']
    | _ \<Rightarrow> False)"
  by code_simp

section \<open>At most one fetch of a URL: claim C2\<close>




section \<open>robots.txt: claim C6\<close>

text \<open>
  Claim C6: with \<open>ignore_robots=false\<close> and a policy that disallows a URL, the URL is
  never fetched at any step of the crawl. The sitemap seeding of \<open>robust_crawl\<close> calls
  \<open>fetch_plain(start_url)\<close> when it finds no sitemap at the usual places, and it asks
  no policy: on a site whose robots.txt disallows everything, the start page is fetched.
  The workers then fetch nothing.
\<close>

theorem robust_crawl_seeding_ignores_robots:
  "(case crawl_run forbidden_crawl without_sitemap [Wake 0, Wake 1] of
      Some (Inr s) \<Rightarrow>
        seed_fetches s = [''http://x.com/''] \<and> plain_fetches s = []
        \<and> \<not> ignore_robots forbidden_crawl
        \<and> robots_block forbidden_crawl ''http://x.com/''
    | _ \<Rightarrow> False)"
  by code_simp

text \<open>
  The workers do ask the policy: no URL it blocks is fetched by a worker, in any run.
\<close>

lemma workers_respect_robots:
  assumes "crawl_run c env evs = Some (Inr s)" and "robots_block c u"
  shows "u \<notin> set (plain_fetches s) \<and> u \<notin> set (render_fetches s)"
  using crawl_run_fetch_once [OF assms(1)] assms(2) by (auto simp: fetch_once_def)

section \<open>The render fetch: claim C8\<close>














lemma inner_calls [simp]:
  "inner_call (Evaluate js)" "inner_call (QuerySelector sel)" "inner_call Hover"
  "inner_call QuerySelectorAll" "inner_call Click"
  "\<not> inner_call NewPage" "\<not> inner_call SetExtraHttpHeaders" "\<not> inner_call (Goto u)"
  "\<not> inner_call Content" "\<not> inner_call Close"
  by (simp_all add: inner_call_def)















































section \<open>A start URL with an upper-case host: claim C10\<close>

text \<open>
  Every URL of the first frontier is a normalized URL; parsed again, its netloc is in
  lower case, and the crawl's host, taken from the start URL as given, is not.
\<close>

lemma off_domain_step:
  assumes "off_domain s"
  shows "off_domain (step c ev s) \<and> seed_fetches (step c ev s) = seed_fetches s"
proof -
  from assms have inv:
    "\<And>u p. Some u \<in> set (q s) \<Longrightarrow> urlparse u = Inr p \<Longrightarrow> netloc p \<noteq> base_host s"
    "plain_fetches s = []" "render_fetches s = []" "results s = []"
    "\<And>st. st \<in> set (workers s) \<Longrightarrow> st = AtLoop \<or> st = Finished \<or> (\<exists>e. st = Crashed e)"
    unfolding off_domain_def by blast+
  have idle: "step c ev s = s" if "ev = PlainDone w h order \<or> ev = RenderDone w h raw order
                                   \<or> ev = RenderRaised w e" for w h order raw e
  proof (cases "w < length (workers s)")
    case True
    then have "workers s ! w \<in> set (workers s)" by simp
    from inv(5) [OF this] that show ?thesis by (auto simp: step_def)
  next
    case False
    with that show ?thesis by (auto simp: step_def)
  qed
  show ?thesis
  proof (cases ev)
    case (Wake w)
    show ?thesis
    proof (cases "w < length (workers s) \<and> workers s ! w = AtLoop")
      case False
      with Wake assms show ?thesis by (auto simp: step_def)
    next
      case True
      obtain st s1 where dq: "dequeue c s = (st, s1)" by (cases "dequeue c s")
      with True Wake have s': "step c ev s = set_worker w st s1" by (simp add: step_def)
      from dequeue_effect [OF dq] have
        same: "same_logs s s1" "results s1 = results s" "workers s1 = workers s"
        and alt: "(\<exists>u pre p. st = AwaitPlain u \<and> q s = pre @ Some u # q s1
                \<and> plain_fetches s1 = plain_fetches s @ [u] \<and> \<not> robots_block c u
                \<and> urlparse u = Inr p \<and> netloc p = base_host s)
             \<or> ((st = Finished \<or> (\<exists>e. st = Crashed e))
                \<and> (\<exists>pre. q s = pre @ q s1) \<and> plain_fetches s1 = plain_fetches s)"
        by simp_all
      from alt show ?thesis
      proof
        assume "\<exists>u pre p. st = AwaitPlain u \<and> q s = pre @ Some u # q s1
                \<and> plain_fetches s1 = plain_fetches s @ [u] \<and> \<not> robots_block c u
                \<and> urlparse u = Inr p \<and> netloc p = base_host s"
        then obtain u pre p where "q s = pre @ Some u # q s1" "urlparse u = Inr p"
          "netloc p = base_host s" by blast
        with inv(1) [of u p] show ?thesis by simp
      next
        assume "(st = Finished \<or> (\<exists>e. st = Crashed e))
                \<and> (\<exists>pre. q s = pre @ q s1) \<and> plain_fetches s1 = plain_fetches s"
        then obtain pre where
          b: "st = Finished \<or> (\<exists>e. st = Crashed e)" "q s = pre @ q s1"
             "plain_fetches s1 = plain_fetches s"
          by auto
        have 1: "netloc p \<noteq> base_host s1" if "Some u \<in> set (q s1)" "urlparse u = Inr p" for u p
          using inv(1) [of u p] that b(2) same(1) by (simp add: same_logs_def)
        have 5: "x = AtLoop \<or> x = Finished \<or> (\<exists>e. x = Crashed e)"
          if "x \<in> set ((workers s1)[w := st])" for x
          using that set_update_subset_insert [of "workers s1" w st] inv(5) [of x] b(1) same(3)
          by auto
        show ?thesis
          unfolding s' off_domain_def set_worker_def
          using 1 5 b(3) inv(2,3,4) same by (auto simp: same_logs_def)
      qed
    qed
  next
    case (PlainDone w h order)
    with idle [of w h order] assms show ?thesis by simp
  next
    case (RenderDone w h raw order)
    with idle [of w h order raw] assms show ?thesis by simp
  next
    case (RenderRaised w e)
    with idle [of w _ _ _ e] assms show ?thesis by simp
  qed
qed

lemma off_domain_exec:
  "off_domain s \<Longrightarrow> off_domain (exec c evs s) \<and> seed_fetches (exec c evs s) = seed_fetches s"
  unfolding exec_def
proof (induction evs arbitrary: s)
  case Nil
  then show ?case by simp
next
  case (Cons ev evs)
  from off_domain_step [OF Cons.prems, of c ev] Cons.IH [of "step c ev s"]
  show ?case by simp
qed

lemma normalize_url_Some:
  assumes "normalize_url u b = Some x"
  shows "\<exists>y parsed. urlparse y = Inr parsed \<and> netloc parsed \<noteq> [] \<and> x = normalized parsed"
  using assms
  by (auto simp: normalize_url_def lower_eq_Nil split: if_splits sum.splits)

lemma lower_fixed_netloc:
  assumes "urlparse y = Inr parsed" "netloc parsed \<noteq> []" "urlparse (normalized parsed) = Inr p"
  shows "lower (netloc p) = netloc p"
  using urlparse_normalized [OF assms(1,2)] assms(3) by (auto simp: lower_idem)

lemma has_upper_differs: "has_upper h \<Longrightarrow> lower n = n \<Longrightarrow> n \<noteq> h"
  by (auto simp: has_upper_def)

lemma load_sitemaps_normalized:
  assumes "load_sitemaps env ss urls0 req = Some (urls, r)"
    and "\<forall>x \<in> set urls0. \<exists>u. normalize_url u None = Some x"
  shows "\<forall>x \<in> set urls. \<exists>u. normalize_url u None = Some x"
  using assms
proof (induction ss arbitrary: urls0 req)
  case Nil
  then show ?case by simp
next
  case (Cons s ss)
  from Cons.prems(1) obtain found req' where
    f: "fetch_sitemap_urls (depth env) (sitemaps env) s req = (Some found, req')"
    and rest: "load_sitemaps env ss
            (urls0 @ filter (\<lambda>nu. nu \<noteq> []) (List.map_filter (\<lambda>u. normalize_url u None) found))
            req' = Some (urls, r)"
    by (auto split: prod.splits option.splits)
  have "\<forall>x \<in> set (urls0 @ filter (\<lambda>nu. nu \<noteq> []) (List.map_filter (\<lambda>u. normalize_url u None) found)).
          \<exists>u. normalize_url u None = Some x"
    using Cons.prems(2) by (auto simp: List.map_filter_def)
  from Cons.IH [OF rest this] show ?case .
qed

lemma seed_normalized:
  assumes "seed c env root_url = Some (urls, fetched, requested)"
  shows "(\<forall>x \<in> set urls. \<exists>u. normalize_url u None = Some x)
         \<and> set fetched \<subseteq> {start_url c}
         \<and> (variant c = AI \<or> \<not> use_sitemaps c \<longrightarrow> urls = [] \<and> fetched = [])"
proof (cases "variant c = Products \<and> use_sitemaps c")
  case False
  with assms show ?thesis by (cases "variant c") (auto simp: seed_def)
next
  case True
  with assms obtain ss req where
    "load_sitemaps env ss [] req = Some (urls, requested)" "set fetched \<subseteq> {start_url c}"
    by (auto simp: seed_def Let_def split: option.splits if_splits)
  with load_sitemaps_normalized [of env ss "[]" req urls requested] True show ?thesis by auto
qed

lemma has_upper_nonempty: "has_upper h \<Longrightarrow> h \<noteq> []"
  by (auto simp: has_upper_def lower_def)

lemma start_norm_lower:
  assumes "urlparse start = Inr parsed" and "netloc parsed \<noteq> []"
    and "normalize v start None = Inr (Some x)" and "urlparse x = Inr p"
  shows "lower (netloc p) = netloc p"
proof (cases v)
  case Products
  with assms(3) have "normalize_url start None = Some x" by (simp add: normalize_def)
  from normalize_url_Some [OF this] obtain y parsed' where
    "urlparse y = Inr parsed'" "netloc parsed' \<noteq> []" "x = normalized parsed'" by blast
  with assms(4) show ?thesis by (auto intro: lower_fixed_netloc)
next
  case AI
  with assms(3) have "ai_normalize_url start None = Inr (Some x)" by (simp add: normalize_def)
  then obtain parsed0 where
    p0: "urlparse (before CHR ''#'' start) = Inr parsed0" "x = normalized parsed0"
    by (auto simp: ai_normalize_url_def resolve_def split: if_splits sum.splits)
  from urlparse_before_hash [OF assms(1) p0(1)] assms(2) have "netloc parsed0 \<noteq> []" by simp
  with p0 assms(4) show ?thesis by (auto intro: lower_fixed_netloc)
qed

lemma crawl_init_off_domain:
  assumes "urlparse (start_url c) = Inr parsed" and "has_upper (netloc parsed)"
    and "crawl_init c env = Some (Inr s)"
  shows "off_domain s \<and> set (seed_fetches s) \<subseteq> {start_url c}
         \<and> (variant c = AI \<or> \<not> use_sitemaps c \<longrightarrow> seed_fetches s = [])"
proof -
  from assms(1,3) obtain start_norm urls fetched requested queue where
    n: "normalize (variant c) (start_url c) None = Inr start_norm"
    and sd: "seed c env (base_root parsed) = Some (urls, fetched, requested)"
    and iq: "initial_queue (start_norm # map Some urls) = Inr queue"
    and s: "base_host s = netloc parsed" "q s = queue" "plain_fetches s = []"
      "render_fetches s = []" "results s = []"
      "workers s = replicate (nat (concurrency c)) AtLoop" "seed_fetches s = fetched"
    by (auto simp: crawl_init_def split: sum.splits option.splits prod.splits if_splits)
  from seed_normalized [OF sd] have
    urls: "\<forall>x \<in> set urls. \<exists>u. normalize_url u None = Some x"
    and fetched: "set fetched \<subseteq> {start_url c}"
      "variant c = AI \<or> \<not> use_sitemaps c \<longrightarrow> fetched = []"
    by simp_all
  from initial_queue_distinct [OF iq] have sub: "set queue \<subseteq> set (start_norm # map Some urls)"
    by simp
  have ne: "netloc parsed \<noteq> []" using assms(2) by (rule has_upper_nonempty)
  have off: "netloc p \<noteq> base_host s" if "Some x \<in> set (q s)" "urlparse x = Inr p" for x p
  proof -
    from that(1) sub s(2) have "Some x = start_norm \<or> x \<in> set urls" by auto
    then have "lower (netloc p) = netloc p"
    proof
      assume "Some x = start_norm"
      with n have "normalize (variant c) (start_url c) None = Inr (Some x)" by simp
      from start_norm_lower [OF assms(1) ne this that(2)] show ?thesis .
    next
      assume "x \<in> set urls"
      with urls obtain u where "normalize_url u None = Some x" by blast
      from normalize_url_Some [OF this] obtain y parsed' where
        "urlparse y = Inr parsed'" "netloc parsed' \<noteq> []" "x = normalized parsed'" by blast
      with that(2) show ?thesis by (auto intro: lower_fixed_netloc)
    qed
    with assms(2) show ?thesis unfolding s(1) by (rule has_upper_differs)
  qed
  have "off_domain s" unfolding off_domain_def using off s(3,4,5,6) by auto
  with fetched s(7) show ?thesis by simp
qed

text \<open>
  Claim C10: if the host of the start URL contains an upper-case letter, the crawl
  fetches no page at all and its results are empty. In both crawlers, for every order
  of the workers' steps, no worker fetches a page and the list of results stays empty.
  The one fetch that can happen is the seeding's fetch of the start page, in
  \<open>robust_crawl\<close> with \<open>use_sitemaps\<close>; without \<open>use_sitemaps\<close>, and in \<open>crawl\<close>,
  no page is fetched.
\<close>

theorem upper_case_host_fetches_nothing:
  assumes "urlparse (start_url c) = Inr parsed" and "has_upper (netloc parsed)"
    and "crawl_run c env evs = Some (Inr s)"
  shows "plain_fetches s = [] \<and> render_fetches s = [] \<and> results s = []
         \<and> set (seed_fetches s) \<subseteq> {start_url c}
         \<and> (variant c = AI \<or> \<not> use_sitemaps c \<longrightarrow> seed_fetches s = [])"
proof -
  from assms(3) obtain s0 where s0: "crawl_init c env = Some (Inr s0)" "s = exec c evs s0"
    by (auto simp: crawl_run_def split: option.splits sum.splits)
  from crawl_init_off_domain [OF assms(1,2) s0(1)] off_domain_exec [of s0 c evs]
  show ?thesis unfolding s0(2) by (simp add: off_domain_def)
qed

theorem upper_case_host_fetches_nothing_witness:
  "(case crawl_run upper_crawl without_sitemap [Wake 0, Wake 1] of
      Some (Inr s) \<Rightarrow> plain_fetches s = [] \<and> render_fetches s = [] \<and> results s = []
        \<and> q s = []
    | _ \<Rightarrow> False)"
proof -
  have p: "urlparse (start_url upper_crawl)
             = Inr \<lparr>scheme = ''http'', netloc = ''X.com'', path = ''/'', params = [],
                    query = [], fragment = []\<rparr>"
    by code_simp
  have u: "has_upper (netloc \<lparr>scheme = ''http'', netloc = ''X.com'', path = ''/'', params = [],
                    query = [], fragment = []\<rparr>)"
    by code_simp
  have "(case crawl_run upper_crawl without_sitemap [Wake 0, Wake 1] of
      Some (Inr s) \<Rightarrow> q s = [] | _ \<Rightarrow> False)"
    by code_simp
  then obtain s where run: "crawl_run upper_crawl without_sitemap [Wake 0, Wake 1] = Some (Inr s)"
    and e: "q s = []"
    by (auto split: option.splits sum.splits)
  from upper_case_host_fetches_nothing [OF p u run] e show ?thesis unfolding run by simp
qed

text \<open>
  The claim as it was stated fails in \<open>robust_crawl\<close> with \<open>use_sitemaps\<close> on a site
  with no sitemap at the usual places: the seeding fetches the start page.
\<close>

theorem upper_case_host_seed_fetch:
  "(case urlparse (start_url upper_crawl) of Inr p \<Rightarrow> has_upper (netloc p) | _ \<Rightarrow> False)
   \<and> (case crawl_run upper_crawl without_sitemap [Wake 0, Wake 1] of
        Some (Inr s) \<Rightarrow> seed_fetches s = [''http://X.com/''] \<and> results s = []
      | _ \<Rightarrow> False)"
  by code_simp

end
